theory Spec2Isabelle
  imports Complex_Main "HOL-Library.Multiset" "HOL-Library.Sublist"
begin

section \<open>Data model\<close>

text \<open>
  The declarations of \<^verbatim>\<open>Photo\<close>, \<^verbatim>\<open>PhotoGroup\<close> and \<^verbatim>\<open>AppState\<close> live in
  \<^verbatim>\<open>../types\<close>; the records below carry the fields that
  \<^verbatim>\<open>utils/imageAnalysis.ts\<close> and \<^verbatim>\<open>context/PhotoContext.tsx\<close> read and write.
  In the grouper and the reducer a JavaScript number is a real number: similarities are only
  compared and qualities only subtracted and compared there. The quality scorer has a
  number model of its own. A \<^verbatim>\<open>Date\<close> is its \<^verbatim>\<open>getTime()\<close> value, an integer number
  of milliseconds.
  Fields that no function below inspects (\<^verbatim>\<open>file\<close>, \<^verbatim>\<open>url\<close>, \<^verbatim>\<open>name\<close>, the group's
  \<^verbatim>\<open>title\<close>, image width and height) are left out.
\<close>

record photo =
  photo_id :: string
  embedding :: "real list option"
  quality :: real
  dateCreated :: int
  captureDate :: "int option"
  selected :: bool

text \<open>
  \<^verbatim>\<open>captureDate\<close> is \<^verbatim>\<open>photo.metadata.captureDate\<close>, absent when the metadata or the
  field is; \<^verbatim>\<open>dateCreated\<close> is \<^verbatim>\<open>new Date(file.lastModified)\<close>.
\<close>

record photoGroup =
  group_id :: string
  date :: int
  photos_g :: "photo list"
  similarity :: real
  similarityThreshold :: real

record grouping =
  groups_r :: "photoGroup list"
  uniquePhotos_r :: "photo list"

text \<open>
  \<^verbatim>\<open>cos_sim\<close> is imported from the transformers library; it is a parameter of the model.
\<close>

type_synonym cos_sim = "real list \<Rightarrow> real list \<Rightarrow> real"

section \<open>Array.prototype.sort\<close>

text \<open>
  \<^verbatim>\<open>xs.sort(cmp)\<close> is a stable sort: an element stays in front of a later one unless the
  comparator is positive on the pair. It is modelled as a stable insertion sort driven by
  the comparator the source passes.
\<close>

fun js_insert :: "('a \<Rightarrow> 'a \<Rightarrow> 'n::linordered_idom) \<Rightarrow> 'a \<Rightarrow> 'a list \<Rightarrow> 'a list" where
  "js_insert cmp x [] = [x]"
| "js_insert cmp x (y # ys) = (if cmp x y \<le> 0 then x # y # ys else y # js_insert cmp x ys)"

definition js_sort :: "('a \<Rightarrow> 'a \<Rightarrow> 'n::linordered_idom) \<Rightarrow> 'a list \<Rightarrow> 'a list" where
  "js_sort cmp xs = foldr (js_insert cmp) xs []"

section \<open>groupSimilarPhotos\<close>

definition has_embedding :: "photo \<Rightarrow> bool" where
  "has_embedding p = (case embedding p of None \<Rightarrow> False | Some e \<Rightarrow> 0 < length e)"

text \<open>
  The inner loop \<^verbatim>\<open>for (j = i + 1; ...)\<close>: the anchor \<open>photoA\<close> is compared with each later
  photo that is not yet processed. The state is \<^verbatim>\<open>currentGroupPhotos\<close>,
  \<^verbatim>\<open>minSimilarityInGroup\<close> and \<^verbatim>\<open>processed\<close>.
\<close>

fun scan_later ::
  "cos_sim \<Rightarrow> real \<Rightarrow> photo \<Rightarrow> photo list \<Rightarrow> photo list \<times> real \<times> string set
     \<Rightarrow> photo list \<times> real \<times> string set" where
  "scan_later cs th photoA [] st = st"
| "scan_later cs th photoA (photoB # later) (cur, mn, processed) =
     (if photo_id photoB \<in> processed then scan_later cs th photoA later (cur, mn, processed)
      else (case (embedding photoA, embedding photoB) of
              (Some ea, Some eb) \<Rightarrow>
                (if th \<le> cs ea eb
                 then scan_later cs th photoA later
                        (cur @ [photoB], min mn (cs ea eb), insert (photo_id photoB) processed)
                 else scan_later cs th photoA later (cur, mn, processed))
            | _ \<Rightarrow> scan_later cs th photoA later (cur, mn, processed)))"

text \<open>
  A candidate group of more than one photo becomes a \<^verbatim>\<open>PhotoGroup\<close>: its photos sorted
  by quality, best first; id and date come from \<^verbatim>\<open>sortedPhotos[0]\<close>, which exists because
  the candidate has at least two members.
\<close>

definition by_quality_desc :: "photo \<Rightarrow> photo \<Rightarrow> real" where
  "by_quality_desc a b = quality b - quality a"

definition by_dateCreated_desc :: "photo \<Rightarrow> photo \<Rightarrow> int" where
  "by_dateCreated_desc a b = dateCreated b - dateCreated a"

definition by_date_desc :: "photoGroup \<Rightarrow> photoGroup \<Rightarrow> int" where
  "by_date_desc a b = date b - date a"

definition make_group :: "real \<Rightarrow> photo list \<Rightarrow> real \<Rightarrow> photoGroup" where
  "make_group th cur mn =
     (let sortedPhotos = js_sort by_quality_desc cur in
      \<lparr> group_id = photo_id (hd sortedPhotos) @ ''-group'',
        date = dateCreated (hd sortedPhotos),
        photos_g = sortedPhotos,
        similarity = mn,
        similarityThreshold = th \<rparr>)"

text \<open>
  The outer loop \<^verbatim>\<open>for (i = 0; ...)\<close> over \<^verbatim>\<open>photosWithEmbeddings\<close>, with the state
  \<^verbatim>\<open>groups\<close> (\<open>gs\<close>), \<^verbatim>\<open>uniquePhotos\<close> (\<open>us\<close>), \<^verbatim>\<open>processed\<close>.
\<close>

fun group_loop ::
  "cos_sim \<Rightarrow> real \<Rightarrow> photo list \<Rightarrow> photoGroup list \<times> photo list \<times> string set
     \<Rightarrow> photoGroup list \<times> photo list \<times> string set" where
  "group_loop cs th [] st = st"
| "group_loop cs th (photoA # later) (gs, us, processed) =
     (if photo_id photoA \<in> processed then group_loop cs th later (gs, us, processed)
      else (case scan_later cs th photoA later ([photoA], 1, insert (photo_id photoA) processed) of
              (cur, mn, processed') \<Rightarrow>
                (if 1 < length cur
                 then group_loop cs th later (gs @ [make_group th cur mn], us, processed')
                 else group_loop cs th later (gs, us @ [photoA], processed'))))"

text \<open>
  \<^verbatim>\<open>photos.forEach\<close>: a photo without embedding is pushed onto \<^verbatim>\<open>uniquePhotos\<close> unless a
  photo of the same id is already there.
\<close>

definition push_unembedded :: "photo \<Rightarrow> photo list \<Rightarrow> photo list" where
  "push_unembedded p us =
     (if \<not> has_embedding p \<and> \<not> list_ex (\<lambda>up. photo_id up = photo_id p) us
      then us @ [p] else us)"

definition groupSimilarPhotos :: "cos_sim \<Rightarrow> photo list \<Rightarrow> real \<Rightarrow> grouping" where
  "groupSimilarPhotos cs ps threshold =
     (let photosWithEmbeddings = filter has_embedding ps in
      if length photosWithEmbeddings = 0
      then \<lparr> groups_r = [],
             uniquePhotos_r = js_sort by_dateCreated_desc (filter (\<lambda>p. \<not> has_embedding p) ps) \<rparr>
      else (case group_loop cs threshold photosWithEmbeddings ([], [], {}) of
              (gs, us, processed) \<Rightarrow>
                \<lparr> groups_r = js_sort by_date_desc gs,
                  uniquePhotos_r = js_sort by_dateCreated_desc (fold push_unembedded ps us) \<rparr>))"

text \<open>The source's default argument: \<^verbatim>\<open>similarityThreshold = 0.7\<close>.\<close>

definition default_similarityThreshold :: real where
  "default_similarityThreshold = 0.7"


section \<open>analyzeImage: the quality score\<close>

text \<open>
  The scorer computes in IEEE doubles. A number is \<^verbatim>\<open>NaN\<close> or another double, finite or
  infinite, of a type \<open>'d\<close> that stays abstract. The arithmetic of doubles on operands
  other than \<^verbatim>\<open>NaN\<close> is a parameter: its results are rounded, and a sum, difference,
  product or quotient of such operands can itself be \<^verbatim>\<open>NaN\<close> (\<open>0 / 0\<close>, \<open>\<infinity> - \<infinity>\<close>).
  \<open>lit n\<close> is the double of the natural number \<open>n\<close>.
\<close>

datatype 'd jsnum = NaN | Num 'd

record 'd arithmetic =
  add_d :: "'d \<Rightarrow> 'd \<Rightarrow> 'd jsnum"
  sub_d :: "'d \<Rightarrow> 'd \<Rightarrow> 'd jsnum"
  mul_d :: "'d \<Rightarrow> 'd \<Rightarrow> 'd jsnum"
  div_d :: "'d \<Rightarrow> 'd \<Rightarrow> 'd jsnum"
  round_d :: "'d \<Rightarrow> 'd"
  min_d :: "'d \<Rightarrow> 'd \<Rightarrow> 'd"
  max_d :: "'d \<Rightarrow> 'd \<Rightarrow> 'd"
  lit :: "nat \<Rightarrow> 'd"

text \<open>
  Every operation of the scorer returns \<^verbatim>\<open>NaN\<close> when an operand is \<^verbatim>\<open>NaN\<close>: the binary
  operators, \<^verbatim>\<open>Math.round\<close>, \<^verbatim>\<open>Math.min\<close> and \<^verbatim>\<open>Math.max\<close>.
\<close>

definition js_binop :: "('d \<Rightarrow> 'd \<Rightarrow> 'd jsnum) \<Rightarrow> 'd jsnum \<Rightarrow> 'd jsnum \<Rightarrow> 'd jsnum" where
  "js_binop f a b = (case (a, b) of (Num x, Num y) \<Rightarrow> f x y | _ \<Rightarrow> NaN)"

definition Math_round :: "'d arithmetic \<Rightarrow> 'd jsnum \<Rightarrow> 'd jsnum" where
  "Math_round ar v = (case v of NaN \<Rightarrow> NaN | Num x \<Rightarrow> Num (round_d ar x))"

definition Math_min :: "'d arithmetic \<Rightarrow> 'd jsnum \<Rightarrow> 'd jsnum \<Rightarrow> 'd jsnum" where
  "Math_min ar a b = (case (a, b) of (Num x, Num y) \<Rightarrow> Num (min_d ar x y) | _ \<Rightarrow> NaN)"

definition Math_max :: "'d arithmetic \<Rightarrow> 'd jsnum \<Rightarrow> 'd jsnum \<Rightarrow> 'd jsnum" where
  "Math_max ar a b = (case (a, b) of (Num x, Num y) \<Rightarrow> Num (max_d ar x y) | _ \<Rightarrow> NaN)"

text \<open>
  An embedding and a prompt row are arrays of numbers. A prompt tensor is the list of its
  rows: \<^verbatim>\<open>dims[0]\<close> is the number of rows and \<^verbatim>\<open>slice([i, i + 1], [0, dims[1]])\<close> is row
  \<open>i\<close>. \<^verbatim>\<open>cos_sim\<close> is the library's and a parameter here too. The library calls inside
  the \<^verbatim>\<open>try\<close> block are taken to return normally, so the \<^verbatim>\<open>catch\<close> branch
  (\<^verbatim>\<open>quality = 0\<close>) is not entered.
\<close>

type_synonym 'd vec = "'d jsnum list"

type_synonym 'd tensor = "'d vec list"

type_synonym 'd cos_sim_d = "'d vec \<Rightarrow> 'd vec \<Rightarrow> 'd jsnum"

text \<open>The loops \<^verbatim>\<open>for (i = 0; i < dims[0]; ++i) total += cos_sim(embedding, row)\<close>.\<close>

fun total_similarity :: "'d arithmetic \<Rightarrow> 'd cos_sim_d \<Rightarrow> 'd vec \<Rightarrow> 'd tensor \<Rightarrow> 'd jsnum \<Rightarrow> 'd jsnum" where
  "total_similarity ar cs e [] totalSimilarity = totalSimilarity"
| "total_similarity ar cs e (row # rows) totalSimilarity =
     total_similarity ar cs e rows (js_binop (add_d ar) totalSimilarity (cs e row))"

definition avg_similarity :: "'d arithmetic \<Rightarrow> 'd cos_sim_d \<Rightarrow> 'd vec \<Rightarrow> 'd tensor \<Rightarrow> 'd jsnum" where
  "avg_similarity ar cs e t =
     js_binop (div_d ar) (total_similarity ar cs e t (Num (lit ar 0))) (Num (lit ar (length t)))"

text \<open>
  Line 158:
  \<^verbatim>\<open>Math.max(0, Math.min(100, Math.round(((rawScore*15 + 1) / 2) * 100)))\<close>.
\<close>

definition calibrate :: "'d arithmetic \<Rightarrow> 'd jsnum \<Rightarrow> 'd jsnum" where
  "calibrate ar rawScore =
     Math_max ar (Num (lit ar 0))
       (Math_min ar (Num (lit ar 100))
          (Math_round ar
             (js_binop (mul_d ar)
                (js_binop (div_d ar)
                   (js_binop (add_d ar) (js_binop (mul_d ar) rawScore (Num (lit ar 15)))
                      (Num (lit ar 1)))
                   (Num (lit ar 2)))
                (Num (lit ar 100)))))"

definition analyzeImage_quality ::
  "'d arithmetic \<Rightarrow> 'd cos_sim_d \<Rightarrow> 'd vec option \<Rightarrow> ('d tensor \<times> 'd tensor) option \<Rightarrow> 'd jsnum" where
  "analyzeImage_quality ar cs embedding_opt qualityEmbeddings =
     (case (embedding_opt, qualityEmbeddings) of
        (Some e, Some (positiveEmbeddings, negativeEmbeddings)) \<Rightarrow>
          (if 0 < length e
           then (let avgPositiveSimilarity = avg_similarity ar cs e positiveEmbeddings;
                     avgNegativeSimilarity = avg_similarity ar cs e negativeEmbeddings;
                     rawScore = js_binop (sub_d ar) avgPositiveSimilarity avgNegativeSimilarity
                 in calibrate ar rawScore)
           else Num (lit ar 0))
      | _ \<Rightarrow> Num (lit ar 0))"

section \<open>The reducer of PhotoContext\<close>

record historyEntry =
  selectedPhotos_h :: "string list"
  timestamp :: int

record appState =
  photos :: "photo list"
  groups :: "photoGroup list"
  selectedPhotos :: "string list"
  uniquePhotos :: "photo list"
  history :: "historyEntry list"
  currentHistoryIndex :: int

datatype action =
    ADD_PHOTO_AND_UPDATE_GROUPS photo "photoGroup list" "photo list"
  | TOGGLE_SELECT_PHOTO string
  | SELECT_ALL_IN_GROUP string
  | DESELECT_ALL_IN_GROUP string
  | SELECT_ALL
  | DESELECT_ALL
  | UNDO
  | REDO

text \<open>Reading a property of \<^verbatim>\<open>undefined\<close> throws a \<^verbatim>\<open>TypeError\<close>.\<close>

datatype error = TypeError

definition initialState :: appState where
  "initialState = \<lparr> photos = [], groups = [], selectedPhotos = [], uniquePhotos = [],
                    history = [], currentHistoryIndex = - 1 \<rparr>"

text \<open>
  \<^verbatim>\<open>xs.slice(0, e)\<close>: a negative end counts from the end of the array; the end is
  clipped to the array.
\<close>

definition js_slice0 :: "'a list \<Rightarrow> int \<Rightarrow> 'a list" where
  "js_slice0 xs e = (if e < 0 then take (nat (int (length xs) + e)) xs else take (nat e) xs)"

text \<open>\<^verbatim>\<open>xs[i]\<close>: \<^verbatim>\<open>undefined\<close> (here \<open>None\<close>) outside the array.\<close>

definition js_index :: "'a list \<Rightarrow> int \<Rightarrow> 'a option" where
  "js_index xs i = (if 0 \<le> i \<and> i < int (length xs) then Some (xs ! nat i) else None)"

text \<open>\<^verbatim>\<open>Array.from(new Set(xs))\<close>: the first occurrence of each element, in order.\<close>

definition array_from_set :: "'a list \<Rightarrow> 'a list" where
  "array_from_set xs = fold (\<lambda>x acc. if x \<in> set acc then acc else acc @ [x]) xs []"

text \<open>
  \<^verbatim>\<open>groups.map(g => g.photos[0].id)\<close>: throws on a group without photos.
\<close>

fun best_ids :: "photoGroup list \<Rightarrow> error + string list" where
  "best_ids [] = Inr []"
| "best_ids (g # gs) =
     (case photos_g g of
        [] \<Rightarrow> Inl TypeError
      | p # _ \<Rightarrow> (case best_ids gs of Inl e \<Rightarrow> Inl e | Inr ids \<Rightarrow> Inr (photo_id p # ids)))"

definition push_history :: "int \<Rightarrow> appState \<Rightarrow> string list \<Rightarrow> historyEntry list" where
  "push_history now state newSelectedPhotos =
     js_slice0 (history state) (currentHistoryIndex state + 1)
       @ [\<lparr> selectedPhotos_h = newSelectedPhotos, timestamp = now \<rparr>]"

text \<open>
  \<open>now\<close> is the clock reading of \<^verbatim>\<open>new Date()\<close>. In the first case the block that starts
  \<^verbatim>\<open>if (!autoSelectedPhotos.includes(photo.id))\<close> changes nothing and is left out.
\<close>

fun reducer :: "int \<Rightarrow> appState \<Rightarrow> action \<Rightarrow> error + appState" where
  "reducer now state (ADD_PHOTO_AND_UPDATE_GROUPS photo gs us) =
     (case best_ids gs of
        Inl e \<Rightarrow> Inl e
      | Inr best \<Rightarrow>
          (let updatedPhotos = photos state @ [photo];
               autoSelectedPhotos = map photo_id us @ best;
               newHistoryEntry = \<lparr> selectedPhotos_h = autoSelectedPhotos, timestamp = now \<rparr>;
               hist = (if length (photos state) = 0 then [newHistoryEntry]
                       else js_slice0 (history state) (currentHistoryIndex state + 1) @ [newHistoryEntry])
           in Inr (state
                \<lparr> photos := map (\<lambda>p. p\<lparr>selected := photo_id p \<in> set autoSelectedPhotos\<rparr>) updatedPhotos,
                  groups := gs,
                  uniquePhotos := us,
                  selectedPhotos := autoSelectedPhotos,
                  history := hist,
                  currentHistoryIndex :=
                    (if length (photos state) = 0 then 0 else int (length hist) - 1) \<rparr>)))"
| "reducer now state (TOGGLE_SELECT_PHOTO photoId) =
     (let newSelectedPhotos =
            (if photoId \<notin> set (selectedPhotos state) then selectedPhotos state @ [photoId]
             else remove1 photoId (selectedPhotos state))
      in Inr (state
           \<lparr> selectedPhotos := newSelectedPhotos,
             history := push_history now state newSelectedPhotos,
             currentHistoryIndex := currentHistoryIndex state + 1,
             photos := map (\<lambda>p. if photo_id p = photoId then p\<lparr>selected := \<not> selected p\<rparr> else p)
                         (photos state) \<rparr>))"
| "reducer now state (SELECT_ALL_IN_GROUP groupId) =
     (case find (\<lambda>g. group_id g = groupId) (groups state) of
        None \<Rightarrow> Inr state
      | Some grp \<Rightarrow>
          (let photoIds = map photo_id (photos_g grp);
               newSelectedPhotos = array_from_set (selectedPhotos state @ photoIds)
           in if length newSelectedPhotos = length (selectedPhotos state)
                 \<and> list_all (\<lambda>i. i \<in> set (selectedPhotos state)) newSelectedPhotos
              then Inr state
              else Inr (state
                     \<lparr> selectedPhotos := newSelectedPhotos,
                       history := push_history now state newSelectedPhotos,
                       currentHistoryIndex := currentHistoryIndex state + 1,
                       photos := map (\<lambda>p. if photo_id p \<in> set photoIds then p\<lparr>selected := True\<rparr> else p)
                                   (photos state) \<rparr>)))"
| "reducer now state (DESELECT_ALL_IN_GROUP groupId) =
     (case find (\<lambda>g. group_id g = groupId) (groups state) of
        None \<Rightarrow> Inr state
      | Some grp \<Rightarrow>
          (let photoIds = map photo_id (photos_g grp);
               initialSelectedCount = length (selectedPhotos state);
               newSelectedPhotos = filter (\<lambda>i. i \<notin> set photoIds) (selectedPhotos state)
           in if length newSelectedPhotos = initialSelectedCount
              then Inr state
              else Inr (state
                     \<lparr> selectedPhotos := newSelectedPhotos,
                       history := push_history now state newSelectedPhotos,
                       currentHistoryIndex := currentHistoryIndex state + 1,
                       photos := map (\<lambda>p. if photo_id p \<in> set photoIds then p\<lparr>selected := False\<rparr> else p)
                                   (photos state) \<rparr>)))"
| "reducer now state SELECT_ALL =
     (let allPhotoIds = map photo_id (photos state)
      in if length allPhotoIds = length (selectedPhotos state)
            \<and> list_all (\<lambda>i. i \<in> set (selectedPhotos state)) allPhotoIds
         then Inr state
         else Inr (state
                \<lparr> selectedPhotos := allPhotoIds,
                  history := push_history now state allPhotoIds,
                  currentHistoryIndex := currentHistoryIndex state + 1,
                  photos := map (\<lambda>p. p\<lparr>selected := True\<rparr>) (photos state) \<rparr>))"
| "reducer now state DESELECT_ALL =
     (if length (selectedPhotos state) = 0 then Inr state
      else Inr (state
             \<lparr> selectedPhotos := [],
               history := push_history now state [],
               currentHistoryIndex := currentHistoryIndex state + 1,
               photos := map (\<lambda>p. p\<lparr>selected := False\<rparr>) (photos state) \<rparr>))"
| "reducer now state UNDO =
     (if currentHistoryIndex state \<le> 0 then Inr state
      else (case js_index (history state) (currentHistoryIndex state - 1) of
              None \<Rightarrow> Inl TypeError
            | Some historyState \<Rightarrow>
                Inr (state
                  \<lparr> selectedPhotos := selectedPhotos_h historyState,
                    currentHistoryIndex := currentHistoryIndex state - 1,
                    photos := map (\<lambda>p. p\<lparr>selected := photo_id p \<in> set (selectedPhotos_h historyState)\<rparr>)
                                (photos state) \<rparr>)))"
| "reducer now state REDO =
     (if int (length (history state)) - 1 \<le> currentHistoryIndex state then Inr state
      else (case js_index (history state) (currentHistoryIndex state + 1) of
              None \<Rightarrow> Inl TypeError
            | Some historyState \<Rightarrow>
                Inr (state
                  \<lparr> selectedPhotos := selectedPhotos_h historyState,
                    currentHistoryIndex := currentHistoryIndex state + 1,
                    photos := map (\<lambda>p. p\<lparr>selected := photo_id p \<in> set (selectedPhotos_h historyState)\<rparr>)
                                (photos state) \<rparr>)))"

section \<open>Notions used in the statements\<close>

definition member_ids :: "photoGroup \<Rightarrow> string list" where
  "member_ids g = map photo_id (photos_g g)"

text \<open>
  A later photo joins the candidate group of the anchor when both have an embedding and
  their similarity reaches the threshold: the test of the inner loop.
\<close>

definition joins :: "cos_sim \<Rightarrow> real \<Rightarrow> photo \<Rightarrow> photo \<Rightarrow> bool" where
  "joins cs th photoA photoB =
     (case (embedding photoA, embedding photoB) of
        (Some ea, Some eb) \<Rightarrow> th \<le> cs ea eb
      | _ \<Rightarrow> False)"

text \<open>
  A group built from a candidate list that is a subsequence of \<open>ps\<close>, has at least two
  members, and whose tracked minimum lies between the threshold and 1 when the threshold
  is at most 1.
\<close>

definition from_candidate :: "photo list \<Rightarrow> real \<Rightarrow> photoGroup \<Rightarrow> bool" where
  "from_candidate ps th g =
     (\<exists>cand mn. g = make_group th cand mn \<and> subseq cand ps \<and> 1 < length cand
        \<and> (th \<le> 1 \<longrightarrow> th \<le> mn \<and> mn \<le> 1))"

text \<open>
  The capture date of a photo as \<^verbatim>\<open>addPhotos\<close> records it in the metadata:
  \<^verbatim>\<open>metadata.captureDate ?? dateCreated\<close>, the metadata timestamp, and the file's
  modification time when there is none.
\<close>

definition capture_date :: "photo \<Rightarrow> int" where
  "capture_date p = (case captureDate p of Some d \<Rightarrow> d | None \<Rightarrow> dateCreated p)"

text \<open>
  The library's \<^verbatim>\<open>cos_sim\<close> divides the dot product by the product of the magnitudes. For
  an embedding whose entries are all zero that is \<open>0 / 0\<close>, which is \<^verbatim>\<open>NaN\<close>; on other
  embeddings the similarity is left to the parameter.
\<close>

definition all_zero :: "'d arithmetic \<Rightarrow> 'd vec \<Rightarrow> bool" where
  "all_zero ar e = list_all (\<lambda>x. x = Num (lit ar 0)) e"

definition cos_sim_zero_nan :: "'d arithmetic \<Rightarrow> 'd cos_sim_d \<Rightarrow> 'd cos_sim_d" where
  "cos_sim_zero_nan ar cs e row = (if all_zero ar e then NaN else cs e row)"

text \<open>
  The selection invariant: every photo's \<^verbatim>\<open>selected\<close> flag says whether its id is in
  \<^verbatim>\<open>selectedPhotos\<close>.
\<close>

definition selection_consistent :: "appState \<Rightarrow> bool" where
  "selection_consistent s =
     list_all (\<lambda>p. selected p = (photo_id p \<in> set (selectedPhotos s))) (photos s)"

text \<open>The history pointer is \<open>-1\<close> or an index of \<^verbatim>\<open>history\<close>.\<close>

definition hist_ok :: "appState \<Rightarrow> bool" where
  "hist_ok s = (- 1 \<le> currentHistoryIndex s \<and> currentHistoryIndex s < int (length (history s)))"

text \<open>
  The transitions that append to the history: an ingest onto a non-empty photo list, and a
  toggle, (de)select-all-in-group or (de)select-all that is not a no-op, that is, does not
  return the state it was given. Undo and redo never append.
\<close>

fun appends_history :: "int \<Rightarrow> appState \<Rightarrow> action \<Rightarrow> bool" where
  "appends_history now s (ADD_PHOTO_AND_UPDATE_GROUPS p gs us) = (photos s \<noteq> [])"
| "appends_history now s UNDO = False"
| "appends_history now s REDO = False"
| "appends_history now s a = (reducer now s a \<noteq> Inr s)"

text \<open>
  The states of the store: the initial state and whatever the reducer returns from a state
  of the store, for any action and any clock reading.
\<close>

inductive reachable :: "appState \<Rightarrow> bool" where
  initial: "reachable initialState"
| step: "reachable s \<Longrightarrow> reducer now s a = Inr s' \<Longrightarrow> reachable s'"

text \<open>
  Ids name photos: no two photos of the state share an id, and neither the selection nor
  an entry of the history lists an id twice.
\<close>

definition ids_distinct :: "appState \<Rightarrow> bool" where
  "ids_distinct s =
     (distinct (map photo_id (photos s)) \<and> distinct (selectedPhotos s)
      \<and> list_all (\<lambda>h. distinct (selectedPhotos_h h)) (history s))"

text \<open>
  The actions as \<^verbatim>\<open>PhotoProvider\<close> dispatches them: \<^verbatim>\<open>addPhotos\<close> gives the new photo an
  id of its own and ingests it with the result of \<^verbatim>\<open>groupSimilarPhotos(nextPhotos)\<close>,
  where \<^verbatim>\<open>nextPhotos\<close> is the state's photos followed by the new one; the other actions
  are dispatched with any argument.
\<close>

fun dispatched :: "cos_sim \<Rightarrow> appState \<Rightarrow> action \<Rightarrow> bool" where
  "dispatched cs s (ADD_PHOTO_AND_UPDATE_GROUPS p gs us) =
     (photo_id p \<notin> set (map photo_id (photos s))
      \<and> gs = groups_r (groupSimilarPhotos cs (photos s @ [p]) default_similarityThreshold)
      \<and> us = uniquePhotos_r (groupSimilarPhotos cs (photos s @ [p]) default_similarityThreshold))"
| "dispatched cs s a = True"

inductive store_state :: "cos_sim \<Rightarrow> appState \<Rightarrow> bool" for cs where
  initial: "store_state cs initialState"
| step: "store_state cs s \<Longrightarrow> dispatched cs s a \<Longrightarrow> reducer now s a = Inr s' \<Longrightarrow> store_state cs s'"

section \<open>Example inputs\<close>

text \<open>
  Three photos with embeddings, processed in the order A, B, C, and a similarity table
  with \<open>sim(A, B) = 0.8\<close>, \<open>sim(B, C) = 0.75\<close>, \<open>sim(A, C) = 0.5\<close>. The embeddings only
  serve as keys of the table. A fourth photo has no embedding.
\<close>

definition photoA_ex :: photo where
  "photoA_ex = \<lparr> photo_id = ''A'', embedding = Some [1], quality = 10, dateCreated = 3,
                  captureDate = None, selected = False \<rparr>"

definition photoB_ex :: photo where
  "photoB_ex = \<lparr> photo_id = ''B'', embedding = Some [2], quality = 20, dateCreated = 2,
                  captureDate = None, selected = False \<rparr>"

definition photoC_ex :: photo where
  "photoC_ex = \<lparr> photo_id = ''C'', embedding = Some [3], quality = 30, dateCreated = 1,
                  captureDate = None, selected = False \<rparr>"

definition photoN_ex :: photo where
  "photoN_ex = \<lparr> photo_id = ''N'', embedding = None, quality = 0, dateCreated = 7,
                  captureDate = None, selected = False \<rparr>"

definition sim_ex :: cos_sim where
  "sim_ex x y =
     (if (x = [1] \<and> y = [2]) \<or> (x = [2] \<and> y = [1]) then 0.8
      else if (x = [2] \<and> y = [3]) \<or> (x = [3] \<and> y = [2]) then 0.75
      else if (x = [1] \<and> y = [3]) \<or> (x = [3] \<and> y = [1]) then 0.5
      else 1)"

definition groupBA_ex :: photoGroup where
  "groupBA_ex = \<lparr> group_id = ''B-group'', date = 2, photos_g = [photoB_ex, photoA_ex],
                   similarity = 0.8, similarityThreshold = 0.7 \<rparr>"

text \<open>
  Two similar photos whose metadata carries a capture timestamp that differs from the
  file's modification time.
\<close>

definition photoD_ex :: photo where
  "photoD_ex = \<lparr> photo_id = ''D'', embedding = Some [1], quality = 50, dateCreated = 200,
                  captureDate = Some 100, selected = False \<rparr>"

definition photoE_ex :: photo where
  "photoE_ex = \<lparr> photo_id = ''E'', embedding = Some [2], quality = 40, dateCreated = 300,
                  captureDate = Some 150, selected = False \<rparr>"

text \<open>
  States of the store: after ingesting photo A as a unique photo at time 1, and after
  \<^verbatim>\<open>DESELECT_ALL\<close> at time 2.
\<close>

definition state1_ex :: appState where
  "state1_ex = \<lparr> photos = [photoA_ex\<lparr>selected := True\<rparr>], groups = [],
                  selectedPhotos = [''A''], uniquePhotos = [photoA_ex],
                  history = [\<lparr> selectedPhotos_h = [''A''], timestamp = 1 \<rparr>],
                  currentHistoryIndex = 0 \<rparr>"

definition state2_ex :: appState where
  "state2_ex = \<lparr> photos = [photoA_ex], groups = [],
                  selectedPhotos = [], uniquePhotos = [photoA_ex],
                  history = [\<lparr> selectedPhotos_h = [''A''], timestamp = 1 \<rparr>,
                             \<lparr> selectedPhotos_h = [], timestamp = 2 \<rparr>],
                  currentHistoryIndex = 1 \<rparr>"

section \<open>Properties of groupSimilarPhotos\<close>

lemmas grouping_defs = groupSimilarPhotos_def has_embedding_def make_group_def js_sort_def
  by_quality_desc_def by_date_desc_def by_dateCreated_desc_def push_unembedded_def

lemmas example_defs = photoA_ex_def photoB_ex_def photoC_ex_def photoN_ex_def sim_ex_def
  groupBA_ex_def photoD_ex_def photoE_ex_def

subsection \<open>The three-photo scenario\<close>

text \<open>
  Claim C1 as stated: with threshold 0.7 and the similarities above, the result is one group
  \<open>{A, B, C}\<close> and C is not in \<open>uniquePhotos\<close>. The code compares C with the anchor A
  only (0.5 is below the threshold), so at the example input the only group holds B and A,
  C is in no group, and C is in \<open>uniquePhotos\<close>.
\<close>

theorem C1_chaining_counterexample:
  "map member_ids (groups_r (groupSimilarPhotos sim_ex [photoA_ex, photoB_ex, photoC_ex] 0.7))
     = [[''B'', ''A'']]
   \<and> ''C'' \<notin> set (concat (map member_ids
         (groups_r (groupSimilarPhotos sim_ex [photoA_ex, photoB_ex, photoC_ex] 0.7))))
   \<and> ''C'' \<in> set (map photo_id
         (uniquePhotos_r (groupSimilarPhotos sim_ex [photoA_ex, photoB_ex, photoC_ex] 0.7)))"
  by (simp add: grouping_defs member_ids_def example_defs)

text \<open>
  Claim C1, amended: for three photos A, B, C with embeddings and distinct ids, given in
  this order, with \<open>sim(A, B) = 0.8\<close>, \<open>sim(B, C) = 0.75\<close>, \<open>sim(A, C) = 0.5\<close> and threshold
  0.7, the result has exactly one group, its member set is \<open>{A, B}\<close>, and
  \<open>uniquePhotos\<close> is exactly C.
\<close>

theorem C1_anchor_only:
  assumes "embedding A = Some ea" "embedding B = Some eb" "embedding C = Some ec"
    and "ea \<noteq> []" "eb \<noteq> []" "ec \<noteq> []"
    and "distinct [photo_id A, photo_id B, photo_id C]"
    and "cs ea eb = 0.8" "cs eb ec = 0.75" "cs ea ec = 0.5"
  shows "map (\<lambda>g. set (member_ids g)) (groups_r (groupSimilarPhotos cs [A, B, C] 0.7))
           = [{photo_id A, photo_id B}]
         \<and> uniquePhotos_r (groupSimilarPhotos cs [A, B, C] 0.7) = [C]"
  using assms by (auto simp: grouping_defs member_ids_def)

theorem C1_anchor_only_witness:
  "embedding photoA_ex = Some [1] \<and> embedding photoB_ex = Some [2]
   \<and> embedding photoC_ex = Some [3]
   \<and> distinct [photo_id photoA_ex, photo_id photoB_ex, photo_id photoC_ex]
   \<and> sim_ex [1] [2] = 0.8 \<and> sim_ex [2] [3] = 0.75 \<and> sim_ex [1] [3] = 0.5
   \<and> map (\<lambda>g. set (member_ids g))
        (groups_r (groupSimilarPhotos sim_ex [photoA_ex, photoB_ex, photoC_ex] 0.7))
      = [{''A'', ''B''}]
   \<and> uniquePhotos_r (groupSimilarPhotos sim_ex [photoA_ex, photoB_ex, photoC_ex] 0.7)
      = [photoC_ex]"
  using C1_anchor_only [of photoA_ex "[1]" photoB_ex "[2]" photoC_ex "[3]" sim_ex]
  by (simp add: example_defs)

subsection \<open>Sorting with the source's comparators\<close>

lemma mset_js_insert [simp]: "mset (js_insert cmp x ys) = add_mset x (mset ys)"
  by (induction ys) auto

lemma mset_js_sort [simp]: "mset (js_sort cmp xs) = mset xs"
  by (induction xs) (auto simp: js_sort_def)

lemma set_js_sort [simp]: "set (js_sort cmp xs) = set xs"
  by (metis mset_js_sort set_mset_mset)

lemma length_js_sort [simp]: "length (js_sort cmp xs) = length xs"
  by (metis mset_js_sort size_mset)

lemma js_insert_quality:
  "js_insert by_quality_desc x ys = insort_key (\<lambda>p. - quality p) x ys"
  by (induction ys) (auto simp: by_quality_desc_def)

lemma js_sort_quality: "js_sort by_quality_desc xs = sort_key (\<lambda>p. - quality p) xs"
  by (induction xs) (auto simp: js_sort_def sort_key_def js_insert_quality)

lemma sorted_js_sort_quality:
  "sorted_wrt (\<lambda>a b. quality b \<le> quality a) (js_sort by_quality_desc xs)"
proof -
  have "sorted (map (\<lambda>p. - quality p) (sort_key (\<lambda>p. - quality p) xs))"
    by (rule sorted_sort_key)
  then show ?thesis
    by (simp add: js_sort_quality sorted_map)
qed


subsection \<open>The inner loop\<close>

lemma scan_later_added:
  "\<exists>added mn' processed'.
      scan_later cs th photoA bs (cur, mn, processed) = (cur @ added, mn', processed')
      \<and> subseq added bs
      \<and> (th \<le> mn \<and> mn \<le> 1 \<longrightarrow> th \<le> mn' \<and> mn' \<le> 1)"
proof (induction bs arbitrary: cur mn processed)
  case Nil
  then show ?case by simp
next
  case (Cons b bs)
  show ?case
  proof (cases "photo_id b \<notin> processed \<and> joins cs th photoA b")
    case True
    then obtain ea eb where e: "embedding photoA = Some ea" "embedding b = Some eb" "th \<le> cs ea eb"
      by (auto simp: joins_def split: option.splits)
    obtain added mn' processed' where
      "scan_later cs th photoA bs (cur @ [b], min mn (cs ea eb), insert (photo_id b) processed)
         = ((cur @ [b]) @ added, mn', processed')"
      "subseq added bs"
      "th \<le> min mn (cs ea eb) \<and> min mn (cs ea eb) \<le> 1 \<longrightarrow> th \<le> mn' \<and> mn' \<le> 1"
      using Cons.IH by blast
    then show ?thesis using True e
      by (intro exI [of _ "b # added"] exI [of _ mn'] exI [of _ processed']) auto
  next
    case False
    obtain added mn' processed' where
      "scan_later cs th photoA bs (cur, mn, processed) = (cur @ added, mn', processed')"
      "subseq added bs" "th \<le> mn \<and> mn \<le> 1 \<longrightarrow> th \<le> mn' \<and> mn' \<le> 1"
      using Cons.IH by blast
    then show ?thesis using False
      by (intro exI [of _ added] exI [of _ mn'] exI [of _ processed'])
         (auto simp: joins_def split: option.splits)
  qed
qed

lemma scan_later_distinct:
  assumes "distinct (map photo_id bs)"
  shows "\<exists>mn'. scan_later cs th photoA bs (cur, mn, processed) =
           (cur @ filter (\<lambda>b. photo_id b \<notin> processed \<and> joins cs th photoA b) bs, mn',
            processed \<union> photo_id ` set (filter (\<lambda>b. photo_id b \<notin> processed \<and> joins cs th photoA b) bs))"
  using assms
proof (induction bs arbitrary: cur mn processed)
  case Nil
  then show ?case by simp
next
  case (Cons b bs)
  from Cons.prems have d: "distinct (map photo_id bs)" and ni: "photo_id b \<notin> photo_id ` set bs"
    by simp_all
  from ni have nb: "\<forall>x \<in> set bs. photo_id x \<noteq> photo_id b"
    by (metis image_eqI)
  show ?case
  proof (cases "photo_id b \<notin> processed \<and> joins cs th photoA b")
    case True
    then obtain ea eb where e: "embedding photoA = Some ea" "embedding b = Some eb" "th \<le> cs ea eb"
      by (auto simp: joins_def split: option.splits)
    have same: "filter (\<lambda>x. photo_id x \<notin> insert (photo_id b) processed \<and> joins cs th photoA x) bs
              = filter (\<lambda>x. photo_id x \<notin> processed \<and> joins cs th photoA x) bs"
      using nb by (intro filter_cong) auto
    obtain mn' where
      "scan_later cs th photoA bs (cur @ [b], min mn (cs ea eb), insert (photo_id b) processed)
         = ((cur @ [b]) @ filter (\<lambda>x. photo_id x \<notin> insert (photo_id b) processed \<and> joins cs th photoA x) bs, mn',
            insert (photo_id b) processed \<union> photo_id ` set (filter (\<lambda>x. photo_id x \<notin> insert (photo_id b) processed \<and> joins cs th photoA x) bs))"
      using Cons.IH [OF d] by blast
    then have "scan_later cs th photoA bs (cur @ [b], min mn (cs ea eb), insert (photo_id b) processed)
         = ((cur @ [b]) @ filter (\<lambda>x. photo_id x \<notin> processed \<and> joins cs th photoA x) bs, mn',
            insert (photo_id b) processed \<union> photo_id ` set (filter (\<lambda>x. photo_id x \<notin> processed \<and> joins cs th photoA x) bs))"
      unfolding same .
    then show ?thesis using True e by simp
  next
    case False
    obtain mn' where
      "scan_later cs th photoA bs (cur, mn, processed)
         = (cur @ filter (\<lambda>x. photo_id x \<notin> processed \<and> joins cs th photoA x) bs, mn',
            processed \<union> photo_id ` set (filter (\<lambda>x. photo_id x \<notin> processed \<and> joins cs th photoA x) bs))"
      using Cons.IH [OF d] by blast
    then show ?thesis using False
      by (auto simp: joins_def split: option.splits)
  qed
qed


subsection \<open>The outer loop\<close>

lemma from_candidate_subseq:
  assumes "from_candidate ps th g" and "subseq ps qs"
  shows "from_candidate qs th g"
proof -
  obtain cand mn where c: "g = make_group th cand mn" "subseq cand ps" "1 < length cand"
      "th \<le> 1 \<longrightarrow> th \<le> mn \<and> mn \<le> 1"
    using assms(1) unfolding from_candidate_def by blast
  have "subseq cand qs"
    using c(2) assms(2) by (rule subseq_order.trans)
  then show ?thesis
    unfolding from_candidate_def using c by blast
qed

lemma from_candidate_Cons: "from_candidate ps th g \<Longrightarrow> from_candidate (p # ps) th g"
  by (erule from_candidate_subseq) auto

lemma group_loop_groups:
  "g \<in> set (fst (group_loop cs th rest (gs, us, processed)))
     \<Longrightarrow> g \<in> set gs \<or> from_candidate rest th g"
proof (induction rest arbitrary: gs us processed)
  case Nil
  then show ?case by simp
next
  case (Cons a later)
  show ?case
  proof (cases "photo_id a \<in> processed")
    case True
    then show ?thesis using Cons.IH [of gs us processed] Cons.prems
      by (auto intro: from_candidate_Cons)
  next
    case False
    obtain added mn' processed' where
      sc: "scan_later cs th a later ([a], 1, insert (photo_id a) processed) = ([a] @ added, mn', processed')"
      and sub: "subseq added later" and bound: "th \<le> 1 \<and> (1::real) \<le> 1 \<longrightarrow> th \<le> mn' \<and> mn' \<le> 1"
      using scan_later_added [of cs th a later "[a]" 1 "insert (photo_id a) processed"] by blast
    show ?thesis
    proof (cases "added = []")
      case True
      then have "g \<in> set (fst (group_loop cs th later (gs, us @ [a], processed')))"
        using Cons.prems False sc by simp
      then show ?thesis using Cons.IH by (auto intro: from_candidate_Cons)
    next
      case ne: False
      then have "g \<in> set (fst (group_loop cs th later (gs @ [make_group th (a # added) mn'], us, processed')))"
        using Cons.prems False sc by simp
      then have "g \<in> set gs \<or> g = make_group th (a # added) mn' \<or> from_candidate later th g"
        using Cons.IH by fastforce
      moreover have "from_candidate (a # later) th (make_group th (a # added) mn')"
        unfolding from_candidate_def using sub bound ne
        by (intro exI [of _ "a # added"] exI [of _ mn']) auto
      ultimately show ?thesis by (auto intro: from_candidate_Cons)
    qed
  qed
qed

lemma mset_filter_split:
  "mset (filter Q xs) = mset (filter (\<lambda>x. Q x \<and> J x) xs) + mset (filter (\<lambda>x. Q x \<and> \<not> J x) xs)"
  by (induction xs) auto

lemma photos_g_make_group [simp]: "photos_g (make_group th cur mn) = js_sort by_quality_desc cur"
  by (simp add: make_group_def Let_def)

lemma group_loop_mset:
  assumes "distinct (map photo_id rest)"
  shows "mset (concat (map photos_g (fst (group_loop cs th rest (gs, us, processed)))))
           + mset (fst (snd (group_loop cs th rest (gs, us, processed))))
         = mset (concat (map photos_g gs)) + mset us
           + mset (filter (\<lambda>p. photo_id p \<notin> processed) rest)"
  using assms
proof (induction rest arbitrary: gs us processed)
  case Nil
  then show ?case by simp
next
  case (Cons a later)
  from Cons.prems have d: "distinct (map photo_id later)" and ni: "photo_id a \<notin> photo_id ` set later"
    by simp_all
  from ni have nb: "\<forall>x \<in> set later. photo_id x \<noteq> photo_id a"
    by (metis image_eqI)
  have inj: "inj_on photo_id (set later)"
    using d by (simp add: distinct_map)
  show ?case
  proof (cases "photo_id a \<in> processed")
    case True
    then show ?thesis using Cons.IH [OF d, of gs us processed] by simp
  next
    case False
    define F where "F = filter (\<lambda>b. photo_id b \<notin> insert (photo_id a) processed \<and> joins cs th a b) later"
    define processed' where "processed' = insert (photo_id a) processed \<union> photo_id ` set F"
    obtain mn' where
      sc: "scan_later cs th a later ([a], 1, insert (photo_id a) processed) = ([a] @ F, mn', processed')"
      using scan_later_distinct [OF d, of cs th a "[a]" 1 "insert (photo_id a) processed"]
      unfolding F_def processed'_def by blast
    have F: "F = filter (\<lambda>p. photo_id p \<notin> processed \<and> joins cs th a p) later"
      unfolding F_def using nb by (intro filter_cong) auto
    have in_F: "photo_id p \<in> photo_id ` set F \<longleftrightarrow> p \<in> set F" if "p \<in> set later" for p
    proof
      assume "photo_id p \<in> photo_id ` set F"
      then obtain q where q: "q \<in> set F" "photo_id q = photo_id p" by auto
      then have "q \<in> set later" by (simp add: F)
      then have "q = p" using inj that q(2) by (auto dest: inj_onD)
      then show "p \<in> set F" using q(1) by simp
    qed auto
    have rest': "filter (\<lambda>p. photo_id p \<notin> processed') later
               = filter (\<lambda>p. photo_id p \<notin> processed \<and> \<not> joins cs th a p) later"
    proof (rule filter_cong [OF refl])
      fix p assume p: "p \<in> set later"
      then have "photo_id p \<noteq> photo_id a" using nb by blast
      moreover have "p \<in> set F \<longleftrightarrow> photo_id p \<notin> processed \<and> joins cs th a p"
        using p by (simp add: F)
      ultimately show "(photo_id p \<notin> processed') = (photo_id p \<notin> processed \<and> \<not> joins cs th a p)"
        using in_F [OF p] unfolding processed'_def by auto
    qed
    have split: "mset (filter (\<lambda>p. photo_id p \<notin> processed) later)
               = mset F + mset (filter (\<lambda>p. photo_id p \<notin> processed') later)"
      unfolding rest' F by (rule mset_filter_split)
    show ?thesis
    proof (cases "F = []")
      case True
      then have "group_loop cs th (a # later) (gs, us, processed)
               = group_loop cs th later (gs, us @ [a], processed')"
        using False sc by simp
      then show ?thesis
        using Cons.IH [OF d, of gs "us @ [a]" processed'] False split True by simp
    next
      case ne: False
      then have "group_loop cs th (a # later) (gs, us, processed)
               = group_loop cs th later (gs @ [make_group th (a # F) mn'], us, processed')"
        using False sc by (cases F) simp_all
      then show ?thesis
        using Cons.IH [OF d, of "gs @ [make_group th (a # F) mn']" us processed'] False split
        by simp
    qed
  qed
qed


subsection \<open>The whole function\<close>

lemma fold_push_unembedded:
  assumes "distinct (map photo_id qs)"
    and "\<forall>q \<in> set qs. \<not> has_embedding q \<longrightarrow> photo_id q \<notin> photo_id ` set us"
  shows "fold push_unembedded qs us = us @ filter (\<lambda>p. \<not> has_embedding p) qs"
  using assms
proof (induction qs arbitrary: us)
  case Nil
  then show ?case by simp
next
  case (Cons q qs)
  from Cons.prems(1) have d: "distinct (map photo_id qs)" and ni: "photo_id q \<notin> photo_id ` set qs"
    by simp_all
  show ?case
  proof (cases "has_embedding q")
    case True
    then show ?thesis using Cons.IH [OF d, of us] Cons.prems(2)
      by (simp add: push_unembedded_def)
  next
    case False
    then have "photo_id q \<notin> photo_id ` set us"
      using Cons.prems(2) by simp
    then have step: "push_unembedded q us = us @ [q]"
      using False by (auto simp: push_unembedded_def list_ex_iff image_iff)
    have "\<forall>x \<in> set qs. \<not> has_embedding x \<longrightarrow> photo_id x \<notin> photo_id ` set (us @ [q])"
      using Cons.prems(2) ni by (auto simp: image_iff)
    then show ?thesis using Cons.IH [OF d, of "us @ [q]"] False step by simp
  qed
qed

lemma mset_concat_map: "mset (concat (map f xs)) = (\<Sum>x \<in># mset xs. mset (f x))"
  by (induction xs) auto

lemma mset_concat_js_sort [simp]:
  "mset (concat (map f (js_sort cmp xs))) = mset (concat (map f xs))"
  by (simp add: mset_concat_map)

lemma groups_from_candidate:
  assumes "g \<in> set (groups_r (groupSimilarPhotos cs ps th))"
  shows "from_candidate ps th g"
proof (cases "filter has_embedding ps = []")
  case True
  then show ?thesis using assms by (simp add: groupSimilarPhotos_def)
next
  case False
  then have "g \<in> set (fst (group_loop cs th (filter has_embedding ps) ([], [], {})))"
    using assms by (simp add: groupSimilarPhotos_def split: prod.splits)
  then have "from_candidate (filter has_embedding ps) th g"
    using group_loop_groups by fastforce
  then show ?thesis
    by (rule from_candidate_subseq) simp
qed

lemma grouping_mset:
  assumes "distinct (map photo_id ps)"
  shows "mset (concat (map photos_g (groups_r (groupSimilarPhotos cs ps th))))
           + mset (uniquePhotos_r (groupSimilarPhotos cs ps th)) = mset ps"
    and "\<forall>p \<in> set ps. \<not> has_embedding p \<longrightarrow> p \<in> set (uniquePhotos_r (groupSimilarPhotos cs ps th))"
proof -
  let ?pwe = "filter has_embedding ps"
  let ?r = "groupSimilarPhotos cs ps th"
  have both: "mset (concat (map photos_g (groups_r ?r))) + mset (uniquePhotos_r ?r) = mset ps
      \<and> (\<forall>p \<in> set ps. \<not> has_embedding p \<longrightarrow> p \<in> set (uniquePhotos_r ?r))"
  proof (cases "?pwe = []")
    case True
    then have "\<forall>p \<in> set ps. \<not> has_embedding p"
      by (simp add: filter_empty_conv)
    then have "filter (\<lambda>p. \<not> has_embedding p) ps = ps"
      by simp
    then show ?thesis using True
      by (simp add: groupSimilarPhotos_def)
  next
    case False
    obtain gs us processed where gl: "group_loop cs th ?pwe ([], [], {}) = (gs, us, processed)"
      by (cases "group_loop cs th ?pwe ([], [], {})") auto
    have d: "distinct (map photo_id ?pwe)"
      using assms by (rule distinct_map_filter)
    have m: "mset (concat (map photos_g gs)) + mset us = mset ?pwe"
      using group_loop_mset [OF d, of cs th "[]" "[]" "{}"] by (simp add: gl)
    have "set_mset (mset us) \<subseteq> set_mset (mset ?pwe)"
      unfolding m [symmetric] by simp
    then have us: "\<forall>u \<in> set us. u \<in> set ps \<and> has_embedding u"
      by auto
    have inj: "inj_on photo_id (set ps)"
      using assms by (simp add: distinct_map)
    have "\<forall>q \<in> set ps. \<not> has_embedding q \<longrightarrow> photo_id q \<notin> photo_id ` set us"
    proof (intro ballI impI notI)
      fix q assume q: "q \<in> set ps" "\<not> has_embedding q" "photo_id q \<in> photo_id ` set us"
      then obtain u where u: "u \<in> set us" "photo_id u = photo_id q" by auto
      then have "u = q" using inj q(1) us by (auto dest: inj_onD)
      then show False using u(1) us q(2) by blast
    qed
    then have f: "fold push_unembedded ps us = us @ filter (\<lambda>p. \<not> has_embedding p) ps"
      using fold_push_unembedded [OF assms] by blast
    have r: "groups_r ?r = js_sort by_date_desc gs"
      "uniquePhotos_r ?r = js_sort by_dateCreated_desc (us @ filter (\<lambda>p. \<not> has_embedding p) ps)"
      using False by (simp_all add: groupSimilarPhotos_def gl f)
    have "mset (concat (map photos_g (groups_r ?r))) + mset (uniquePhotos_r ?r)
          = (mset (concat (map photos_g gs)) + mset us) + mset (filter (\<lambda>p. \<not> has_embedding p) ps)"
      by (simp add: r)
    also have "\<dots> = mset ps"
      unfolding m by simp
    finally show ?thesis by (simp add: r(2))
  qed
  from both show "mset (concat (map photos_g (groups_r ?r))) + mset (uniquePhotos_r ?r) = mset ps"
    by blast
  from both show "\<forall>p \<in> set ps. \<not> has_embedding p \<longrightarrow> p \<in> set (uniquePhotos_r ?r)"
    by blast
qed


subsection \<open>Partition of the input\<close>

text \<open>
  Claim C3: for an input list with pairwise distinct ids, the ids in the returned groups
  together with the ids in \<open>uniquePhotos\<close> are exactly the input ids, each once, and
  every photo whose embedding is absent or empty is in \<open>uniquePhotos\<close>.
\<close>

theorem C3_partition:
  assumes "distinct (map photo_id ps)"
  shows "mset (concat (map member_ids (groups_r (groupSimilarPhotos cs ps th)))
               @ map photo_id (uniquePhotos_r (groupSimilarPhotos cs ps th)))
           = mset (map photo_id ps)
         \<and> distinct (concat (map member_ids (groups_r (groupSimilarPhotos cs ps th)))
               @ map photo_id (uniquePhotos_r (groupSimilarPhotos cs ps th)))
         \<and> (\<forall>p \<in> set ps. \<not> has_embedding p \<longrightarrow>
               p \<in> set (uniquePhotos_r (groupSimilarPhotos cs ps th)))"
proof -
  let ?r = "groupSimilarPhotos cs ps th"
  let ?ids = "concat (map member_ids (groups_r ?r)) @ map photo_id (uniquePhotos_r ?r)"
  have "?ids = map photo_id (concat (map photos_g (groups_r ?r)) @ uniquePhotos_r ?r)"
    by (simp add: map_concat comp_def member_ids_def [abs_def])
  then have "mset ?ids = image_mset photo_id
      (mset (concat (map photos_g (groups_r ?r))) + mset (uniquePhotos_r ?r))"
    by simp
  then have ids: "mset ?ids = mset (map photo_id ps)"
    using grouping_mset(1) [OF assms, of cs th] by simp
  then have "distinct ?ids"
    using assms by (metis mset_eq_imp_distinct_iff)
  then show ?thesis using ids grouping_mset(2) [OF assms, of cs th] by blast
qed

theorem C3_partition_witness:
  "distinct (map photo_id [photoA_ex, photoN_ex, photoB_ex, photoC_ex])
   \<and> mset (concat (map member_ids
              (groups_r (groupSimilarPhotos sim_ex [photoA_ex, photoN_ex, photoB_ex, photoC_ex] 0.7)))
            @ map photo_id
              (uniquePhotos_r (groupSimilarPhotos sim_ex [photoA_ex, photoN_ex, photoB_ex, photoC_ex] 0.7)))
       = mset [''A'', ''N'', ''B'', ''C'']
   \<and> \<not> has_embedding photoN_ex
   \<and> photoN_ex \<in> set (uniquePhotos_r
         (groupSimilarPhotos sim_ex [photoA_ex, photoN_ex, photoB_ex, photoC_ex] 0.7))"
  using C3_partition [of "[photoA_ex, photoN_ex, photoB_ex, photoC_ex]" sim_ex "0.7"]
  by (simp add: example_defs has_embedding_def)

subsection \<open>Shape of a group\<close>



subsection \<open>Date of a group\<close>

text \<open>
  Claim C9 as stated: the date of a group is the capture date of its first photo, the
  metadata timestamp when there is one. At the example input the first photo of the only
  group is D, whose metadata timestamp is 100 and whose file modification time is 200;
  the group's date is 200.
\<close>

theorem C9_capture_date_counterexample:
  "map photos_g (groups_r (groupSimilarPhotos sim_ex [photoD_ex, photoE_ex] 0.7))
     = [[photoD_ex, photoE_ex]]
   \<and> map date (groups_r (groupSimilarPhotos sim_ex [photoD_ex, photoE_ex] 0.7)) = [200]
   \<and> capture_date photoD_ex = 100"
  by (simp add: grouping_defs example_defs capture_date_def)

text \<open>
  Claim C9, amended: every returned group has a first photo, no photo of the group has a
  higher quality, and the group's date is that photo's \<^verbatim>\<open>dateCreated\<close>, the file's
  modification time; it is the photo's capture date when the metadata has no timestamp
  or the same one.
\<close>

theorem C9_group_date:
  assumes "g \<in> set (groups_r (groupSimilarPhotos cs ps th))"
  shows "photos_g g \<noteq> []
         \<and> (\<forall>p \<in> set (photos_g g). quality p \<le> quality (hd (photos_g g)))
         \<and> date g = dateCreated (hd (photos_g g))
         \<and> (captureDate (hd (photos_g g)) = None
              \<or> captureDate (hd (photos_g g)) = Some (dateCreated (hd (photos_g g)))
            \<longrightarrow> date g = capture_date (hd (photos_g g)))"
proof -
  obtain cand mn where c: "g = make_group th cand mn" "1 < length cand"
    using groups_from_candidate [OF assms] unfolding from_candidate_def by blast
  have "length (photos_g g) = length cand"
    by (simp add: c(1))
  then have ne: "photos_g g \<noteq> []" using c(2) by auto
  have "sorted_wrt (\<lambda>a b. quality b \<le> quality a) (photos_g g)"
    by (simp add: c(1) sorted_js_sort_quality)
  then have best: "\<forall>p \<in> set (photos_g g). quality p \<le> quality (hd (photos_g g))"
    using ne by (cases "photos_g g") auto
  have d: "date g = dateCreated (hd (photos_g g))"
    by (simp add: c(1) make_group_def Let_def)
  then have "captureDate (hd (photos_g g)) = None
              \<or> captureDate (hd (photos_g g)) = Some (dateCreated (hd (photos_g g)))
            \<longrightarrow> date g = capture_date (hd (photos_g g))"
    by (auto simp: capture_date_def)
  then show ?thesis using ne best d by blast
qed

theorem C9_group_date_witness:
  "groupBA_ex \<in> set (groups_r (groupSimilarPhotos sim_ex [photoA_ex, photoB_ex, photoC_ex] 0.7))
   \<and> hd (photos_g groupBA_ex) = photoB_ex
   \<and> captureDate photoB_ex = None
   \<and> date groupBA_ex = dateCreated photoB_ex
   \<and> date groupBA_ex = capture_date photoB_ex"
  using C9_group_date [of groupBA_ex sim_ex "[photoA_ex, photoB_ex, photoC_ex]" "0.7"]
  by (simp add: grouping_defs example_defs capture_date_def)

subsection \<open>Similarity of a group\<close>

text \<open>
  Claim C10: for a threshold of at most 1, every returned group records the threshold and
  a similarity between the threshold and 1.
\<close>

theorem C10_similarity_bounds:
  assumes "th \<le> 1" and "g \<in> set (groups_r (groupSimilarPhotos cs ps th))"
  shows "similarityThreshold g \<le> similarity g \<and> similarity g \<le> 1
         \<and> similarityThreshold g = th"
proof -
  obtain cand mn where c: "g = make_group th cand mn" "th \<le> 1 \<longrightarrow> th \<le> mn \<and> mn \<le> 1"
    using groups_from_candidate [OF assms(2)] unfolding from_candidate_def by blast
  then show ?thesis using assms(1) by (simp add: make_group_def Let_def)
qed

theorem C10_similarity_bounds_witness:
  "(0.7 :: real) \<le> 1
   \<and> groupBA_ex \<in> set (groups_r (groupSimilarPhotos sim_ex [photoA_ex, photoB_ex, photoC_ex] 0.7))
   \<and> similarityThreshold groupBA_ex \<le> similarity groupBA_ex
   \<and> similarity groupBA_ex \<le> 1"
  using C10_similarity_bounds [of "0.7" groupBA_ex sim_ex "[photoA_ex, photoB_ex, photoC_ex]"]
  by (simp add: grouping_defs example_defs)

section \<open>Properties of the quality score\<close>

lemma total_similarity_NaN [simp]: "total_similarity ar cs e rows NaN = NaN"
  by (induction rows) (simp_all add: js_binop_def)

lemma avg_similarity_NaN:
  assumes "cs e row = NaN"
  shows "avg_similarity ar cs e (row # rows) = NaN"
  using assms by (simp add: avg_similarity_def js_binop_def)

lemma calibrate_NaN [simp]: "calibrate ar NaN = NaN"
  by (simp add: calibrate_def js_binop_def Math_round_def Math_min_def Math_max_def)

text \<open>
  Claim C7 says that the returned quality is always an integer between 0 and 100. For a
  non-empty embedding of zeros and at least one positive prompt row, whatever the
  arithmetic of doubles, the remaining rows and the similarity on other embeddings, the
  code returns \<^verbatim>\<open>NaN\<close>: every similarity is \<^verbatim>\<open>NaN\<close>, so are the totals, the averages
  and the raw score, and the clamp of line 158 passes \<^verbatim>\<open>NaN\<close> on.
\<close>

theorem C7_quality_nan:
  "analyzeImage_quality ar (cos_sim_zero_nan ar cs)
     (Some [Num (lit ar 0), Num (lit ar 0), Num (lit ar 0)])
     (Some (row # positiveRows, negativeRows)) = NaN"
proof -
  let ?e = "[Num (lit ar 0), Num (lit ar 0), Num (lit ar 0)]"
  have "cos_sim_zero_nan ar cs ?e row = NaN"
    by (simp add: cos_sim_zero_nan_def all_zero_def)
  then have "avg_similarity ar (cos_sim_zero_nan ar cs) ?e (row # positiveRows) = NaN"
    by (rule avg_similarity_NaN)
  then show ?thesis
    by (simp add: analyzeImage_quality_def Let_def js_binop_def)
qed

section \<open>Properties of the reducer\<close>

lemma set_array_from_set_aux:
  "set (fold (\<lambda>x acc. if x \<in> set acc then acc else acc @ [x]) xs ys) = set ys \<union> set xs"
  by (induction xs arbitrary: ys) auto

lemma set_array_from_set [simp]: "set (array_from_set xs) = set xs"
  by (simp add: array_from_set_def set_array_from_set_aux)


subsection \<open>Toggling an unknown id\<close>

text \<open>
  Claim C2 as stated: toggling an id that no photo carries returns the state unchanged. In
  the initial state, toggling the unknown id x selects it and appends a history entry.
\<close>

theorem C2_toggle_unknown_counterexample:
  "''x'' \<notin> set (map photo_id (photos initialState))
   \<and> reducer 0 initialState (TOGGLE_SELECT_PHOTO ''x'')
       = Inr (initialState \<lparr> selectedPhotos := [''x''],
                history := [\<lparr> selectedPhotos_h = [''x''], timestamp = 0 \<rparr>],
                currentHistoryIndex := 0 \<rparr>)
   \<and> reducer 0 initialState (TOGGLE_SELECT_PHOTO ''x'') \<noteq> Inr initialState"
  by (simp add: initialState_def Let_def push_history_def js_slice0_def)

text \<open>
  Claim C2, amended: toggling an id that no photo carries leaves \<^verbatim>\<open>photos\<close>,
  \<^verbatim>\<open>groups\<close> and \<^verbatim>\<open>uniquePhotos\<close> as they are, flips the membership of the id in
  \<^verbatim>\<open>selectedPhotos\<close> (appended when absent, its first occurrence removed otherwise),
  replaces the history by its prefix up to the pointer followed by one entry with the new
  selection, and moves the pointer up by one; the result is never the input state.
\<close>

theorem C2_toggle_unknown:
  assumes "photoId \<notin> set (map photo_id (photos s))"
  shows "reducer now s (TOGGLE_SELECT_PHOTO photoId) =
           Inr (s \<lparr> selectedPhotos :=
                     (if photoId \<in> set (selectedPhotos s) then remove1 photoId (selectedPhotos s)
                      else selectedPhotos s @ [photoId]),
                   history := js_slice0 (history s) (currentHistoryIndex s + 1)
                     @ [\<lparr> selectedPhotos_h =
                            (if photoId \<in> set (selectedPhotos s) then remove1 photoId (selectedPhotos s)
                             else selectedPhotos s @ [photoId]),
                          timestamp = now \<rparr>],
                   currentHistoryIndex := currentHistoryIndex s + 1 \<rparr>)
         \<and> reducer now s (TOGGLE_SELECT_PHOTO photoId) \<noteq> Inr s"
proof -
  have same: "map (\<lambda>p. if photo_id p = photoId then p\<lparr>selected := \<not> selected p\<rparr> else p) (photos s) = photos s"
    using assms by (intro map_idI) auto
  have "reducer now s (TOGGLE_SELECT_PHOTO photoId) \<noteq> Inr s"
  proof
    assume "reducer now s (TOGGLE_SELECT_PHOTO photoId) = Inr s"
    then have "currentHistoryIndex s + 1 = currentHistoryIndex s"
      by (auto simp: Let_def dest: arg_cong [where f = currentHistoryIndex])
    then show False by simp
  qed
  then show ?thesis using same
    by (simp add: Let_def push_history_def)
qed


theorem C2_toggle_unknown_witness:
  "''Z'' \<notin> set (map photo_id (photos state1_ex))
   \<and> reducer 5 state1_ex (TOGGLE_SELECT_PHOTO ''Z'')
       = Inr (state1_ex \<lparr> selectedPhotos := [''A'', ''Z''],
                history := [\<lparr> selectedPhotos_h = [''A''], timestamp = 1 \<rparr>,
                            \<lparr> selectedPhotos_h = [''A'', ''Z''], timestamp = 5 \<rparr>],
                currentHistoryIndex := 1 \<rparr>)"
  using C2_toggle_unknown [of "''Z''" state1_ex 5]
  by (simp add: state1_ex_def photoA_ex_def Let_def js_slice0_def)

subsection \<open>Ids stay distinct\<close>

text \<open>
  In every state that the store reaches through dispatched actions, no id is repeated
  among the photos, in the selection or in an entry of the history.
\<close>

lemma distinct_array_from_set_aux:
  "distinct ys \<Longrightarrow> distinct (fold (\<lambda>x acc. if x \<in> set acc then acc else acc @ [x]) xs ys)"
  by (induction xs arbitrary: ys) auto

lemma distinct_array_from_set [simp]: "distinct (array_from_set xs)"
  by (simp add: array_from_set_def distinct_array_from_set_aux)

lemma list_all_js_slice0: "list_all P xs \<Longrightarrow> list_all P (js_slice0 xs k)"
  by (auto simp: js_slice0_def list_all_iff dest: in_set_takeD)

lemma list_all_push_history:
  "list_all (\<lambda>h. distinct (selectedPhotos_h h)) (history s) \<Longrightarrow> distinct sel
     \<Longrightarrow> list_all (\<lambda>h. distinct (selectedPhotos_h h)) (push_history now s sel)"
  by (simp add: push_history_def list_all_js_slice0)

lemma js_index_in_set: "js_index xs i = Some x \<Longrightarrow> x \<in> set xs"
  by (auto simp: js_index_def split: if_splits)

lemma subseq_distinct: "subseq xs ys \<Longrightarrow> distinct ys \<Longrightarrow> distinct xs"
proof (induction rule: list_emb.induct)
  case (list_emb_Cons2 x y xs ys)
  then have "x \<notin> set xs"
    by (auto elim: list_emb_set)
  then show ?case using list_emb_Cons2 by simp
qed simp_all

lemma best_ids_subseq:
  "best_ids gs = Inr best \<Longrightarrow> subseq best (concat (map member_ids gs))"
proof (induction gs arbitrary: best)
  case Nil
  then show ?case by simp
next
  case (Cons g gs)
  then obtain p rest ids where g: "photos_g g = p # rest" and ids: "best_ids gs = Inr ids"
    and best: "best = photo_id p # ids"
    by (auto split: list.splits sum.splits)
  have "subseq ids (concat (map member_ids gs))"
    using Cons.IH [OF ids] .
  then have "subseq ids (map photo_id rest @ concat (map member_ids gs))"
    by (rule list_emb_append2)
  then show ?case
    by (simp add: best g member_ids_def [of g])
qed

lemma grouping_selection_distinct:
  assumes "distinct (map photo_id ps)"
    and "best_ids (groups_r (groupSimilarPhotos cs ps th)) = Inr best"
  shows "distinct (map photo_id (uniquePhotos_r (groupSimilarPhotos cs ps th)) @ best)"
proof -
  let ?r = "groupSimilarPhotos cs ps th"
  let ?members = "concat (map member_ids (groups_r ?r))"
  let ?us = "map photo_id (uniquePhotos_r ?r)"
  have "?members @ ?us = map photo_id (concat (map photos_g (groups_r ?r)) @ uniquePhotos_r ?r)"
    by (simp add: map_concat comp_def member_ids_def [abs_def])
  then have "mset (?members @ ?us) = image_mset photo_id
      (mset (concat (map photos_g (groups_r ?r))) + mset (uniquePhotos_r ?r))"
    by simp
  then have "mset (?members @ ?us) = mset (map photo_id ps)"
    using grouping_mset(1) [OF assms(1), of cs th] by simp
  then have d: "distinct (?members @ ?us)"
    using assms(1) by (metis mset_eq_imp_distinct_iff)
  have "subseq (best @ ?us) (?members @ ?us)"
    using best_ids_subseq [OF assms(2)] by (simp add: list_emb_append_mono)
  then have "distinct (best @ ?us)"
    using d by (rule subseq_distinct)
  then show ?thesis by auto
qed


lemma ids_map_selected [simp]:
  "map photo_id (map (\<lambda>p. p\<lparr>selected := f p\<rparr>) ps) = map photo_id ps"
  by (induction ps) auto

lemma ids_map_selected_if [simp]:
  "map photo_id (map (\<lambda>p. if c p then p\<lparr>selected := f p\<rparr> else p) ps) = map photo_id ps"
  by (induction ps) auto

lemma ids_distinct_ADD:
  assumes "ids_distinct s" and "dispatched cs s (ADD_PHOTO_AND_UPDATE_GROUPS p gs us)"
    and "reducer now s (ADD_PHOTO_AND_UPDATE_GROUPS p gs us) = Inr s'"
  shows "ids_distinct s'"
proof -
  obtain best where best: "best_ids gs = Inr best"
    using assms(3) by (auto split: sum.splits)
  have fresh: "photo_id p \<notin> set (map photo_id (photos s))"
    and gs: "gs = groups_r (groupSimilarPhotos cs (photos s @ [p]) default_similarityThreshold)"
    and us: "us = uniquePhotos_r (groupSimilarPhotos cs (photos s @ [p]) default_similarityThreshold)"
    using assms(2) by simp_all
  have dp: "distinct (map photo_id (photos s @ [p]))"
    using assms(1) fresh by (simp add: ids_distinct_def)
  have sel: "distinct (map photo_id us @ best)"
    using grouping_selection_distinct [OF dp, of cs default_similarityThreshold best] best
    unfolding gs us by blast
  have photos': "map photo_id (photos s') = map photo_id (photos s @ [p])"
    and sel': "selectedPhotos s' = map photo_id us @ best"
    and hist': "history s' = [\<lparr> selectedPhotos_h = map photo_id us @ best, timestamp = now \<rparr>]
        \<or> history s' = js_slice0 (history s) (currentHistoryIndex s + 1)
              @ [\<lparr> selectedPhotos_h = map photo_id us @ best, timestamp = now \<rparr>]"
    using assms(3) best by (auto simp: Let_def)
  have "list_all (\<lambda>h. distinct (selectedPhotos_h h)) (history s')"
    using hist' sel assms(1) by (auto simp: ids_distinct_def list_all_js_slice0)
  then show ?thesis
    using dp sel unfolding ids_distinct_def photos' sel' by blast
qed

lemma ids_distinct_selection:
  assumes "ids_distinct s" and "distinct sel"
    and "map photo_id (photos s') = map photo_id (photos s)"
    and "selectedPhotos s' = sel" and "history s' = push_history now s sel"
  shows "ids_distinct s'"
proof -
  have "list_all (\<lambda>h. distinct (selectedPhotos_h h)) (history s')"
    using assms(1,2) unfolding assms(5) ids_distinct_def
    by (intro list_all_push_history) simp_all
  moreover have "distinct (map photo_id (photos s'))"
    using assms(1) unfolding assms(3) ids_distinct_def by simp
  ultimately show ?thesis
    using assms(2,4) unfolding ids_distinct_def by simp
qed

lemma ids_distinct_TOGGLE:
  assumes "ids_distinct s" and "reducer now s (TOGGLE_SELECT_PHOTO x) = Inr s'"
  shows "ids_distinct s'"
proof -
  define sel where "sel = (if x \<notin> set (selectedPhotos s) then selectedPhotos s @ [x]
              else remove1 x (selectedPhotos s))"
  have d: "distinct sel"
    using assms(1) by (simp add: ids_distinct_def sel_def)
  have "s' = s \<lparr> selectedPhotos := sel, history := push_history now s sel,
             currentHistoryIndex := currentHistoryIndex s + 1,
             photos := map (\<lambda>p. if photo_id p = x then p\<lparr>selected := \<not> selected p\<rparr> else p)
                         (photos s) \<rparr>"
    using assms(2) unfolding sel_def by (simp add: Let_def)
  then have "map photo_id (photos s') = map photo_id (photos s)" "selectedPhotos s' = sel"
    "history s' = push_history now s sel"
    by simp_all
  then show ?thesis
    using assms(1) d by (rule ids_distinct_selection [rotated 2])
qed

lemma ids_distinct_SELECT_ALL_IN_GROUP:
  assumes "ids_distinct s" and "reducer now s (SELECT_ALL_IN_GROUP x) = Inr s'"
  shows "ids_distinct s'"
proof (cases "find (\<lambda>g. group_id g = x) (groups s)")
  case None
  then show ?thesis using assms by simp
next
  case (Some grp)
  define sel where "sel = array_from_set (selectedPhotos s @ map photo_id (photos_g grp))"
  show ?thesis
  proof (cases "s' = s")
    case True
    then show ?thesis using assms(1) by simp
  next
    case False
    then have "s' = s \<lparr> selectedPhotos := sel, history := push_history now s sel,
               currentHistoryIndex := currentHistoryIndex s + 1,
               photos := map (\<lambda>p. if photo_id p \<in> set (map photo_id (photos_g grp))
                                   then p\<lparr>selected := True\<rparr> else p) (photos s) \<rparr>"
      using assms(2) Some unfolding sel_def by (simp add: Let_def split: if_splits)
    then have "map photo_id (photos s') = map photo_id (photos s)" "selectedPhotos s' = sel"
      "history s' = push_history now s sel"
      by simp_all
    moreover note assms(1)
    moreover have "distinct sel"
      by (simp add: sel_def)
    ultimately show ?thesis
      by (rule ids_distinct_selection [rotated 2])
  qed
qed

lemma ids_distinct_DESELECT_ALL_IN_GROUP:
  assumes "ids_distinct s" and "reducer now s (DESELECT_ALL_IN_GROUP x) = Inr s'"
  shows "ids_distinct s'"
proof (cases "find (\<lambda>g. group_id g = x) (groups s)")
  case None
  then show ?thesis using assms by simp
next
  case (Some grp)
  define sel where
    "sel = filter (\<lambda>i. i \<notin> set (map photo_id (photos_g grp))) (selectedPhotos s)"
  show ?thesis
  proof (cases "s' = s")
    case True
    then show ?thesis using assms(1) by simp
  next
    case False
    then have "s' = s \<lparr> selectedPhotos := sel, history := push_history now s sel,
               currentHistoryIndex := currentHistoryIndex s + 1,
               photos := map (\<lambda>p. if photo_id p \<in> set (map photo_id (photos_g grp))
                                   then p\<lparr>selected := False\<rparr> else p) (photos s) \<rparr>"
      using assms(2) Some unfolding sel_def by (simp add: Let_def split: if_splits)
    then have "map photo_id (photos s') = map photo_id (photos s)" "selectedPhotos s' = sel"
      "history s' = push_history now s sel"
      by simp_all
    moreover note assms(1)
    moreover have "distinct sel"
      using assms(1) by (simp add: sel_def ids_distinct_def)
    ultimately show ?thesis
      by (rule ids_distinct_selection [rotated 2])
  qed
qed

lemma ids_distinct_SELECT_ALL:
  assumes "ids_distinct s" and "reducer now s SELECT_ALL = Inr s'"
  shows "ids_distinct s'"
proof (cases "s' = s")
  case True
  then show ?thesis using assms(1) by simp
next
  case False
  then have "s' = s \<lparr> selectedPhotos := map photo_id (photos s),
                       history := push_history now s (map photo_id (photos s)),
                       currentHistoryIndex := currentHistoryIndex s + 1,
                       photos := map (\<lambda>p. p\<lparr>selected := True\<rparr>) (photos s) \<rparr>"
    using assms(2) by (simp add: Let_def split: if_splits)
  then have "map photo_id (photos s') = map photo_id (photos s)"
    "selectedPhotos s' = map photo_id (photos s)"
    "history s' = push_history now s (map photo_id (photos s))"
    by simp_all
  moreover note assms(1)
  moreover have "distinct (map photo_id (photos s))"
    using assms(1) by (simp add: ids_distinct_def)
  ultimately show ?thesis
    by (rule ids_distinct_selection [rotated 2])
qed

lemma ids_distinct_DESELECT_ALL:
  assumes "ids_distinct s" and "reducer now s DESELECT_ALL = Inr s'"
  shows "ids_distinct s'"
proof (cases "s' = s")
  case True
  then show ?thesis using assms(1) by simp
next
  case False
  then have "s' = s \<lparr> selectedPhotos := [], history := push_history now s [],
                       currentHistoryIndex := currentHistoryIndex s + 1,
                       photos := map (\<lambda>p. p\<lparr>selected := False\<rparr>) (photos s) \<rparr>"
    using assms(2) by (simp split: if_splits)
  then have "map photo_id (photos s') = map photo_id (photos s)" "selectedPhotos s' = []"
    "history s' = push_history now s []"
    by simp_all
  moreover note assms(1)
  moreover have "distinct ([] :: string list)"
    by simp
  ultimately show ?thesis
    by (rule ids_distinct_selection [rotated 2])
qed

lemma ids_distinct_restore:
  assumes "ids_distinct s" and "h \<in> set (history s)"
    and "map photo_id (photos s') = map photo_id (photos s)"
    and "selectedPhotos s' = selectedPhotos_h h" and "history s' = history s"
  shows "ids_distinct s'"
  using assms unfolding ids_distinct_def list_all_iff by simp

lemma ids_distinct_UNDO:
  assumes "ids_distinct s" and "reducer now s UNDO = Inr s'"
  shows "ids_distinct s'"
proof (cases "currentHistoryIndex s \<le> 0")
  case True
  then show ?thesis using assms by simp
next
  case False
  then obtain h where h: "js_index (history s) (currentHistoryIndex s - 1) = Some h"
    using assms(2) by (cases "js_index (history s) (currentHistoryIndex s - 1)") simp_all
  then have "s' = s \<lparr> selectedPhotos := selectedPhotos_h h,
                       currentHistoryIndex := currentHistoryIndex s - 1,
                       photos := map (\<lambda>p. p\<lparr>selected := photo_id p \<in> set (selectedPhotos_h h)\<rparr>)
                                   (photos s) \<rparr>"
    using assms(2) False by simp
  then have "map photo_id (photos s') = map photo_id (photos s)"
    "selectedPhotos s' = selectedPhotos_h h" "history s' = history s"
    by simp_all
  then show ?thesis
    using assms(1) js_index_in_set [OF h] by (rule ids_distinct_restore [rotated 2])
qed

lemma ids_distinct_REDO:
  assumes "ids_distinct s" and "reducer now s REDO = Inr s'"
  shows "ids_distinct s'"
proof (cases "int (length (history s)) - 1 \<le> currentHistoryIndex s")
  case True
  then show ?thesis using assms by simp
next
  case False
  then obtain h where h: "js_index (history s) (currentHistoryIndex s + 1) = Some h"
    using assms(2) by (cases "js_index (history s) (currentHistoryIndex s + 1)") simp_all
  then have "s' = s \<lparr> selectedPhotos := selectedPhotos_h h,
                       currentHistoryIndex := currentHistoryIndex s + 1,
                       photos := map (\<lambda>p. p\<lparr>selected := photo_id p \<in> set (selectedPhotos_h h)\<rparr>)
                                   (photos s) \<rparr>"
    using assms(2) False by simp
  then have "map photo_id (photos s') = map photo_id (photos s)"
    "selectedPhotos s' = selectedPhotos_h h" "history s' = history s"
    by simp_all
  then show ?thesis
    using assms(1) js_index_in_set [OF h] by (rule ids_distinct_restore [rotated 2])
qed

lemma ids_distinct_reducer:
  assumes "ids_distinct s" and "dispatched cs s a" and "reducer now s a = Inr s'"
  shows "ids_distinct s'"
proof (cases a)
  case (ADD_PHOTO_AND_UPDATE_GROUPS p gs us)
  then show ?thesis using assms ids_distinct_ADD by blast
next
  case (TOGGLE_SELECT_PHOTO x)
  then show ?thesis using assms(1,3) ids_distinct_TOGGLE by blast
next
  case (SELECT_ALL_IN_GROUP x)
  then show ?thesis using assms(1,3) ids_distinct_SELECT_ALL_IN_GROUP by blast
next
  case (DESELECT_ALL_IN_GROUP x)
  then show ?thesis using assms(1,3) ids_distinct_DESELECT_ALL_IN_GROUP by blast
next
  case SELECT_ALL
  then show ?thesis using assms(1,3) ids_distinct_SELECT_ALL by blast
next
  case DESELECT_ALL
  then show ?thesis using assms(1,3) ids_distinct_DESELECT_ALL by blast
next
  case UNDO
  then show ?thesis using assms(1,3) ids_distinct_UNDO by blast
next
  case REDO
  then show ?thesis using assms(1,3) ids_distinct_REDO by blast
qed

lemma ids_distinct_initialState: "ids_distinct initialState"
  by (simp add: ids_distinct_def initialState_def)

lemma store_state_ids_distinct: "store_state cs s \<Longrightarrow> distinct (selectedPhotos s)"
proof -
  assume "store_state cs s"
  then have "ids_distinct s"
    by (induction rule: store_state.induct)
       (auto intro: ids_distinct_initialState ids_distinct_reducer)
  then show ?thesis by (simp add: ids_distinct_def)
qed

subsection \<open>The selection invariant\<close>

lemma consistent_ADD:
  "reducer now s (ADD_PHOTO_AND_UPDATE_GROUPS p gs us) = Inr s' \<Longrightarrow> selection_consistent s'"
  by (auto simp: selection_consistent_def list_all_iff Let_def split: sum.splits)

lemma consistent_TOGGLE:
  assumes "selection_consistent s" and "distinct (selectedPhotos s)"
    and "reducer now s (TOGGLE_SELECT_PHOTO x) = Inr s'"
  shows "selection_consistent s'"
proof -
  have "x \<notin> set (remove1 x (selectedPhotos s))"
    using assms(2) by simp
  then show ?thesis using assms(1,3)
    by (auto simp: selection_consistent_def list_all_iff Let_def split: if_splits)
qed

lemma consistent_SELECT_ALL_IN_GROUP:
  assumes "selection_consistent s" and "reducer now s (SELECT_ALL_IN_GROUP x) = Inr s'"
  shows "selection_consistent s'"
proof (cases "find (\<lambda>g. group_id g = x) (groups s)")
  case None
  then show ?thesis using assms by simp
next
  case (Some grp)
  then show ?thesis using assms
    by (auto simp: selection_consistent_def list_all_iff Let_def split: if_splits)
qed

lemma consistent_DESELECT_ALL_IN_GROUP:
  assumes "selection_consistent s" and "reducer now s (DESELECT_ALL_IN_GROUP x) = Inr s'"
  shows "selection_consistent s'"
proof (cases "find (\<lambda>g. group_id g = x) (groups s)")
  case None
  then show ?thesis using assms by simp
next
  case (Some grp)
  then show ?thesis using assms
    by (auto simp: selection_consistent_def list_all_iff Let_def split: if_splits)
qed

lemma consistent_SELECT_ALL:
  assumes "selection_consistent s" and "reducer now s SELECT_ALL = Inr s'"
  shows "selection_consistent s'"
proof (cases "s' = s")
  case True
  then show ?thesis using assms(1) by simp
next
  case False
  then have "s' = s \<lparr> selectedPhotos := map photo_id (photos s),
                       history := push_history now s (map photo_id (photos s)),
                       currentHistoryIndex := currentHistoryIndex s + 1,
                       photos := map (\<lambda>p. p\<lparr>selected := True\<rparr>) (photos s) \<rparr>"
    using assms(2) by (simp add: Let_def split: if_splits)
  then show ?thesis
    by (simp add: selection_consistent_def list_all_iff)
qed

lemma consistent_DESELECT_ALL:
  assumes "selection_consistent s" and "reducer now s DESELECT_ALL = Inr s'"
  shows "selection_consistent s'"
  using assms by (auto simp: selection_consistent_def list_all_iff Let_def split: if_splits)

lemma consistent_UNDO:
  assumes "selection_consistent s" and "reducer now s UNDO = Inr s'"
  shows "selection_consistent s'"
  using assms by (auto simp: selection_consistent_def list_all_iff Let_def split: if_splits option.splits)

lemma consistent_REDO:
  assumes "selection_consistent s" and "reducer now s REDO = Inr s'"
  shows "selection_consistent s'"
  using assms by (auto simp: selection_consistent_def list_all_iff Let_def split: if_splits option.splits)

text \<open>
  Claim C4: every transition that returns a state preserves the selection invariant. The
  state's \<^verbatim>\<open>selectedPhotos\<close> is a set of ids, an array without repetition, as it is in
  every state of the store whose ingests carry the grouper's result
  (\<open>store_state_ids_distinct\<close>).
\<close>

theorem C4_invariant_preserved:
  assumes "selection_consistent s"
    and "distinct (selectedPhotos s)"
    and "reducer now s a = Inr s'"
  shows "selection_consistent s'"
proof (cases a)
  case (ADD_PHOTO_AND_UPDATE_GROUPS p gs us)
  then show ?thesis using assms(3) consistent_ADD by blast
next
  case (TOGGLE_SELECT_PHOTO x)
  then show ?thesis using assms consistent_TOGGLE by auto
next
  case (SELECT_ALL_IN_GROUP x)
  then show ?thesis using assms(1,3) consistent_SELECT_ALL_IN_GROUP by blast
next
  case (DESELECT_ALL_IN_GROUP x)
  then show ?thesis using assms(1,3) consistent_DESELECT_ALL_IN_GROUP by blast
next
  case SELECT_ALL
  then show ?thesis using assms(1,3) consistent_SELECT_ALL by blast
next
  case DESELECT_ALL
  then show ?thesis using assms(1,3) consistent_DESELECT_ALL by blast
next
  case UNDO
  then show ?thesis using assms(1,3) consistent_UNDO by blast
next
  case REDO
  then show ?thesis using assms(1,3) consistent_REDO by blast
qed


theorem C4_invariant_preserved_witness:
  "selection_consistent state1_ex
   \<and> distinct (selectedPhotos state1_ex)
   \<and> reducer 2 state1_ex (TOGGLE_SELECT_PHOTO ''A'') = Inr state2_ex
   \<and> selection_consistent state2_ex"
  using C4_invariant_preserved [of state1_ex 2 "TOGGLE_SELECT_PHOTO ''A''" state2_ex]
  by (simp add: state1_ex_def state2_ex_def photoA_ex_def selection_consistent_def
      Let_def push_history_def js_slice0_def)

subsection \<open>The history\<close>

lemma js_slice0_in_range:
  "- 1 \<le> i \<Longrightarrow> i < int (length xs) \<Longrightarrow> js_slice0 xs (i + 1) = take (nat (i + 1)) xs"
  by (simp add: js_slice0_def)

lemma length_js_slice0_in_range:
  "- 1 \<le> i \<Longrightarrow> i < int (length xs) \<Longrightarrow> int (length (js_slice0 xs (i + 1))) = i + 1"
  by (simp add: js_slice0_def)

lemma length_take_in_range:
  "- 1 \<le> i \<Longrightarrow> i < int (length xs) \<Longrightarrow> int (length (take (nat (i + 1)) xs)) = i + 1"
  by simp

lemma appended_ADD:
  assumes "photos s \<noteq> []" and "reducer now s (ADD_PHOTO_AND_UPDATE_GROUPS p gs us) = Inr s'"
  shows "history s' = js_slice0 (history s) (currentHistoryIndex s + 1) @ [\<lparr> selectedPhotos_h = selectedPhotos s', timestamp = now \<rparr>]
         \<and> currentHistoryIndex s' = int (length (history s')) - 1"
  using assms by (auto simp: Let_def split: sum.splits)

lemma appended_TOGGLE:
  assumes "reducer now s (TOGGLE_SELECT_PHOTO x) = Inr s'"
  shows "history s' = js_slice0 (history s) (currentHistoryIndex s + 1) @ [\<lparr> selectedPhotos_h = selectedPhotos s', timestamp = now \<rparr>]
         \<and> currentHistoryIndex s' = currentHistoryIndex s + 1"
  using assms by (auto simp: Let_def push_history_def)

lemma appended_SELECT_ALL_IN_GROUP:
  assumes "reducer now s (SELECT_ALL_IN_GROUP x) = Inr s'" and "s' \<noteq> s"
  shows "history s' = js_slice0 (history s) (currentHistoryIndex s + 1) @ [\<lparr> selectedPhotos_h = selectedPhotos s', timestamp = now \<rparr>]
         \<and> currentHistoryIndex s' = currentHistoryIndex s + 1"
proof (cases "find (\<lambda>g. group_id g = x) (groups s)")
  case None
  then show ?thesis using assms by simp
next
  case (Some grp)
  then show ?thesis using assms
    by (auto simp: Let_def push_history_def split: if_splits)
qed

lemma appended_DESELECT_ALL_IN_GROUP:
  assumes "reducer now s (DESELECT_ALL_IN_GROUP x) = Inr s'" and "s' \<noteq> s"
  shows "history s' = js_slice0 (history s) (currentHistoryIndex s + 1) @ [\<lparr> selectedPhotos_h = selectedPhotos s', timestamp = now \<rparr>]
         \<and> currentHistoryIndex s' = currentHistoryIndex s + 1"
proof (cases "find (\<lambda>g. group_id g = x) (groups s)")
  case None
  then show ?thesis using assms by simp
next
  case (Some grp)
  then show ?thesis using assms
    by (auto simp: Let_def push_history_def split: if_splits)
qed

lemma appended_SELECT_ALL:
  assumes "reducer now s SELECT_ALL = Inr s'" and "s' \<noteq> s"
  shows "history s' = js_slice0 (history s) (currentHistoryIndex s + 1) @ [\<lparr> selectedPhotos_h = selectedPhotos s', timestamp = now \<rparr>]
         \<and> currentHistoryIndex s' = currentHistoryIndex s + 1"
proof -
  have "s' = s \<lparr> selectedPhotos := map photo_id (photos s),
                  history := push_history now s (map photo_id (photos s)),
                  currentHistoryIndex := currentHistoryIndex s + 1,
                  photos := map (\<lambda>p. p\<lparr>selected := True\<rparr>) (photos s) \<rparr>"
    using assms by (simp add: Let_def split: if_splits)
  then show ?thesis
    by (simp add: push_history_def)
qed

lemma appended_DESELECT_ALL:
  assumes "reducer now s DESELECT_ALL = Inr s'" and "s' \<noteq> s"
  shows "history s' = js_slice0 (history s) (currentHistoryIndex s + 1) @ [\<lparr> selectedPhotos_h = selectedPhotos s', timestamp = now \<rparr>]
         \<and> currentHistoryIndex s' = currentHistoryIndex s + 1"
  using assms by (auto simp: push_history_def split: if_splits)

lemma appended:
  assumes "appends_history now s a" and "reducer now s a = Inr s'" and "hist_ok s"
  shows "history s' = take (nat (currentHistoryIndex s + 1)) (history s) @ [\<lparr> selectedPhotos_h = selectedPhotos s', timestamp = now \<rparr>]
         \<and> currentHistoryIndex s' = currentHistoryIndex s + 1"
proof -
  have r: "js_slice0 (history s) (currentHistoryIndex s + 1) = take (nat (currentHistoryIndex s + 1)) (history s)"
    and l: "int (length (js_slice0 (history s) (currentHistoryIndex s + 1))) = currentHistoryIndex s + 1"
    using assms(3) js_slice0_in_range [of "currentHistoryIndex s" "history s"]
      length_js_slice0_in_range [of "currentHistoryIndex s" "history s"]
    unfolding hist_ok_def by blast+
  have "history s' = js_slice0 (history s) (currentHistoryIndex s + 1) @ [\<lparr> selectedPhotos_h = selectedPhotos s', timestamp = now \<rparr>]
         \<and> (currentHistoryIndex s' = currentHistoryIndex s + 1 \<or> currentHistoryIndex s' = int (length (history s')) - 1)"
  proof (cases a)
    case (ADD_PHOTO_AND_UPDATE_GROUPS p gs us)
    then show ?thesis using assms(1,2) appended_ADD [of s now p gs us s'] by simp
  next
    case (TOGGLE_SELECT_PHOTO x)
    then show ?thesis using assms(2) appended_TOGGLE [of now s x s'] by simp
  next
    case (SELECT_ALL_IN_GROUP x)
    then show ?thesis using assms(1,2) appended_SELECT_ALL_IN_GROUP [of now s x s'] by auto
  next
    case (DESELECT_ALL_IN_GROUP x)
    then show ?thesis using assms(1,2) appended_DESELECT_ALL_IN_GROUP [of now s x s'] by auto
  next
    case SELECT_ALL
    then show ?thesis using assms(1,2) appended_SELECT_ALL [of now s s'] by auto
  next
    case DESELECT_ALL
    then show ?thesis using assms(1,2) appended_DESELECT_ALL [of now s s'] by auto
  next
    case UNDO
    then show ?thesis using assms(1) by simp
  next
    case REDO
    then show ?thesis using assms(1) by simp
  qed
  then show ?thesis using r l by auto
qed


lemma hist_ok_initialState: "hist_ok initialState"
  by (simp add: hist_ok_def initialState_def)

lemma hist_ok_reducer:
  assumes "hist_ok s" and "reducer now s a = Inr s'"
  shows "hist_ok s'"
proof (cases "appends_history now s a")
  case True
  then show ?thesis using appended [OF True assms(2,1)] assms(1)
    by (auto simp: hist_ok_def)
next
  case False
  show ?thesis
  proof (cases a)
    case (ADD_PHOTO_AND_UPDATE_GROUPS p gs us)
    then show ?thesis using assms(2) False
      by (auto simp: hist_ok_def Let_def split: sum.splits)
  next
    case UNDO
    then show ?thesis using assms
      by (auto simp: hist_ok_def split: if_splits option.splits)
  next
    case REDO
    then show ?thesis using assms
      by (auto simp: hist_ok_def split: if_splits option.splits)
  qed (use False assms in auto)
qed

lemma reachable_hist_ok: "reachable s \<Longrightarrow> hist_ok s"
  by (induction rule: reachable.induct) (auto intro: hist_ok_initialState hist_ok_reducer)

text \<open>
  Claim C5: in a state whose history pointer is in range, as it is in every state of the
  store (\<open>reachable_hist_ok\<close>), a transition that appends to the history returns the input
  history cut after the pointer, followed by one entry that holds the new selection, with
  the pointer on that last entry; an ingest onto an empty photo list returns a history of
  exactly that one entry, with the pointer at 0.
\<close>

theorem C5_history_append:
  assumes "hist_ok s" and "reducer now s a = Inr s'"
  shows "(appends_history now s a \<longrightarrow>
            history s' = take (nat (currentHistoryIndex s + 1)) (history s)
                           @ [\<lparr> selectedPhotos_h = selectedPhotos s', timestamp = now \<rparr>]
            \<and> currentHistoryIndex s' = int (length (history s')) - 1)
         \<and> ((\<exists>p gs us. a = ADD_PHOTO_AND_UPDATE_GROUPS p gs us) \<and> photos s = [] \<longrightarrow>
            history s' = [\<lparr> selectedPhotos_h = selectedPhotos s', timestamp = now \<rparr>] \<and> currentHistoryIndex s' = 0)"
proof (intro conjI impI)
  assume ap: "appends_history now s a"
  show "history s' = take (nat (currentHistoryIndex s + 1)) (history s) @ [\<lparr> selectedPhotos_h = selectedPhotos s', timestamp = now \<rparr>]"
    using appended [OF ap assms(2,1)] by simp
  have "int (length (take (nat (currentHistoryIndex s + 1)) (history s))) = currentHistoryIndex s + 1"
    using assms(1) length_take_in_range [of "currentHistoryIndex s" "history s"]
    unfolding hist_ok_def by blast
  then show "currentHistoryIndex s' = int (length (history s')) - 1"
    using appended [OF ap assms(2,1)] by simp
next
  assume "(\<exists>p gs us. a = ADD_PHOTO_AND_UPDATE_GROUPS p gs us) \<and> photos s = []"
  then show "history s' = [\<lparr> selectedPhotos_h = selectedPhotos s', timestamp = now \<rparr>]" and "currentHistoryIndex s' = 0"
    using assms(2) by (auto simp: Let_def split: sum.splits)
qed

theorem C5_history_append_witness:
  "hist_ok state1_ex
   \<and> reducer 2 state1_ex DESELECT_ALL = Inr state2_ex
   \<and> appends_history 2 state1_ex DESELECT_ALL
   \<and> history state2_ex = take 1 (history state1_ex) @ [\<lparr> selectedPhotos_h = [], timestamp = 2 \<rparr>]
   \<and> currentHistoryIndex state2_ex = int (length (history state2_ex)) - 1
   \<and> hist_ok initialState
   \<and> photos initialState = []
   \<and> reducer 1 initialState (ADD_PHOTO_AND_UPDATE_GROUPS photoA_ex [] [photoA_ex]) = Inr state1_ex
   \<and> history state1_ex = [\<lparr> selectedPhotos_h = [''A''], timestamp = 1 \<rparr>]
   \<and> currentHistoryIndex state1_ex = 0"
  using C5_history_append [of state1_ex 2 DESELECT_ALL state2_ex]
    C5_history_append [of initialState 1 "ADD_PHOTO_AND_UPDATE_GROUPS photoA_ex [] [photoA_ex]" state1_ex]
  by (simp add: initialState_def state1_ex_def state2_ex_def photoA_ex_def hist_ok_def
      Let_def push_history_def js_slice0_def)

subsection \<open>Undo and redo\<close>

text \<open>
  Claim C6: if the history pointer of a state is at least 0 and points at an entry that
  holds the state's selection, then after one history-appending action undo returns a
  state with the original selection, and redo on that state returns a state with the
  selection the action produced.
\<close>

theorem C6_undo_redo:
  assumes "0 \<le> currentHistoryIndex s"
    and "js_index (history s) (currentHistoryIndex s) = Some h"
    and "selectedPhotos_h h = selectedPhotos s"
    and "appends_history now s a"
    and "reducer now s a = Inr s1"
  shows "\<exists>s2 s3. reducer now2 s1 UNDO = Inr s2 \<and> selectedPhotos s2 = selectedPhotos s
                \<and> reducer now3 s2 REDO = Inr s3 \<and> selectedPhotos s3 = selectedPhotos s1"
proof -
  let ?i = "currentHistoryIndex s"
  have ok: "hist_ok s" and h: "history s ! nat ?i = h"
    using assms(1,2) by (auto simp: hist_ok_def js_index_def split: if_splits)
  have hist1: "history s1 = take (nat (?i + 1)) (history s) @ [\<lparr> selectedPhotos_h = selectedPhotos s1, timestamp = now \<rparr>]"
    and idx1: "currentHistoryIndex s1 = ?i + 1"
    using appended [OF assms(4,5) ok] by simp_all
  have "int (length (take (nat (?i + 1)) (history s))) = ?i + 1"
    using ok length_take_in_range [of ?i "history s"] unfolding hist_ok_def by blast
  then have len: "length (take (nat (?i + 1)) (history s)) = nat (?i + 1)"
    by linarith
  have at_i: "js_index (history s1) ?i = Some h"
    using assms(1) ok h len by (simp add: hist1 js_index_def nth_append hist_ok_def)
  have at_i1: "js_index (history s1) (?i + 1) = Some \<lparr> selectedPhotos_h = selectedPhotos s1, timestamp = now \<rparr>"
    using assms(1) len by (simp add: hist1 js_index_def nth_append)
  define s2 where "s2 = s1 \<lparr> selectedPhotos := selectedPhotos_h h, currentHistoryIndex := ?i,
      photos := map (\<lambda>p. p\<lparr>selected := photo_id p \<in> set (selectedPhotos_h h)\<rparr>) (photos s1) \<rparr>"
  have u: "reducer now2 s1 UNDO = Inr s2"
    using assms(1) at_i by (simp add: idx1 s2_def)
  have hist2: "history s2 = history s1" and idx2: "currentHistoryIndex s2 = ?i"
    by (simp_all add: s2_def)
  have len1: "int (length (history s1)) = ?i + 2"
    using len assms(1) by (simp add: hist1)
  have "\<exists>s3. reducer now3 s2 REDO = Inr s3 \<and> selectedPhotos s3 = selectedPhotos s1"
    using at_i1 len1 by (simp add: hist2 idx2)
  then show ?thesis using u assms(3) by (auto simp: s2_def)
qed


theorem C6_undo_redo_witness:
  "0 \<le> currentHistoryIndex state1_ex
   \<and> js_index (history state1_ex) (currentHistoryIndex state1_ex)
       = Some \<lparr> selectedPhotos_h = [''A''], timestamp = 1 \<rparr>
   \<and> selectedPhotos state1_ex = [''A'']
   \<and> appends_history 2 state1_ex DESELECT_ALL
   \<and> reducer 2 state1_ex DESELECT_ALL = Inr state2_ex
   \<and> (\<exists>s2 s3. reducer 3 state2_ex UNDO = Inr s2 \<and> selectedPhotos s2 = [''A'']
          \<and> reducer 4 s2 REDO = Inr s3 \<and> selectedPhotos s3 = [])"
  using C6_undo_redo [of state1_ex "\<lparr> selectedPhotos_h = [''A''], timestamp = 1 \<rparr>"
      2 DESELECT_ALL state2_ex 3 4]
  by (simp add: state1_ex_def state2_ex_def photoA_ex_def js_index_def
      Let_def push_history_def js_slice0_def)

text \<open>
  An ingest onto an empty photo list is not among the appending actions: it replaces the
  history by a single entry, and the undo that follows returns its input state. After
  toggling the unknown id x in the initial state and ingesting photo A, undo leaves A
  selected.
\<close>

lemma first_ingest_resets_history:
  "reducer 1
     (initialState \<lparr> selectedPhotos := [''x''],
        history := [\<lparr> selectedPhotos_h = [''x''], timestamp = 0 \<rparr>],
        currentHistoryIndex := 0 \<rparr>)
     (ADD_PHOTO_AND_UPDATE_GROUPS photoA_ex [] [photoA_ex]) = Inr state1_ex
   \<and> reducer 2 state1_ex UNDO = Inr state1_ex
   \<and> selectedPhotos state1_ex = [''A'']"
  by (simp add: initialState_def state1_ex_def photoA_ex_def Let_def)

end
